theory Spec2Isabelle
  imports Main
begin

section \<open>Host objects: WebSocket, console, exceptions\<close>

text \<open>
  The two hooks of the repository, \<^verbatim>\<open>useWebSocket\<close> (src/useWebSocket.js) and
  \<^verbatim>\<open>useBatchedMessages\<close> (src/batchingMessages.js), are embedded as state
  transformers over the state of one component instance and of the host objects it
  creates. Function references are compared by identity in React's dependency arrays,
  so a callback is represented by a reference, not by its body.
\<close>

datatype readyState = CONNECTING | OPEN | CLOSING | CLOSED

datatype exn = SyntaxError | ConsumerError

datatype outcome = Returns | Throws

datatype phase = Fresh | Mounted | Unmounted

text \<open>
  A WebSocket object after the three handler assignments of the effect body. The
  \<^verbatim>\<open>onmessage\<close> closure \<^verbatim>\<open>(event) => onMessage(JSON.parse(event.data))\<close> is
  represented by the \<^verbatim>\<open>onMessage\<close> reference it captures; \<^verbatim>\<open>onopen\<close> and
  \<^verbatim>\<open>onclose\<close> write fixed lines to the console.
\<close>

record 'cb websocket =
  url :: string
  readyState :: readyState
  onMessage :: 'cb

text \<open>
  The part of the state \<^verbatim>\<open>useWebSocket\<close> works on: every WebSocket constructed so
  far (a socket is named by its index), the console, \<^verbatim>\<open>socketRef.current\<close>
  (\<open>None\<close> is \<^verbatim>\<open>null\<close>), the dependency array \<^verbatim>\<open>[url, onMessage]\<close> of the
  effect committed last, and the life cycle of the component instance.
\<close>

record 'cb adapter =
  sockets :: "'cb websocket list"
  console :: "string list"
  socketRef :: "nat option"
  ws_deps :: "(string \<times> 'cb) option"
  phase :: phase

text \<open>\<^verbatim>\<open>WebSocket.close()\<close>: starts the closing handshake unless already closing or closed.\<close>

definition close :: "'cb websocket \<Rightarrow> 'cb websocket" where
  "close s = (if readyState s = CLOSING \<or> readyState s = CLOSED then s
              else s\<lparr>readyState := CLOSING\<rparr>)"

section \<open>useWebSocket\<close>

text \<open>
  The effect body (lines 7 to 10): construct the socket, store it in the ref, install
  the handlers. \<^verbatim>\<open>new WebSocket(url)\<close> is taken at a well-formed address.
\<close>

definition ws_effect :: "string \<Rightarrow> 'cb \<Rightarrow> ('cb, 'z) adapter_scheme \<Rightarrow> ('cb, 'z) adapter_scheme" where
  "ws_effect u cb s =
     s\<lparr>sockets := sockets s @ [\<lparr>url = u, readyState = CONNECTING, onMessage = cb\<rparr>],
       socketRef := Some (length (sockets s)),
       ws_deps := Some (u, cb)\<rparr>"

text \<open>
  The cleanup (lines 12 to 14): \<^verbatim>\<open>socketRef.current.close()\<close>, reading the ref when
  the cleanup runs. The ref is \<^verbatim>\<open>null\<close> only before the first effect, when no
  cleanup exists.
\<close>

definition ws_cleanup :: "('cb, 'z) adapter_scheme \<Rightarrow> ('cb, 'z) adapter_scheme" where
  "ws_cleanup s =
     (case socketRef s of
        None \<Rightarrow> s
      | Some h \<Rightarrow> s\<lparr>sockets := (sockets s)[h := close (sockets s ! h)]\<rparr>)"

text \<open>
  React runs the effect after the first render, and after a later render when an entry
  of \<^verbatim>\<open>[url, onMessage]\<close> differs from the committed one; the previous cleanup
  runs first.
\<close>

definition ws_commit :: "string \<Rightarrow> 'cb \<Rightarrow> ('cb, 'z) adapter_scheme \<Rightarrow> ('cb, 'z) adapter_scheme" where
  "ws_commit u cb s =
     (if ws_deps s \<noteq> Some (u, cb)
      then ws_effect u cb (if ws_deps s = None then s else ws_cleanup s)
      else s)"

text \<open>
  One call of the hook within a render. The value returned (line 17) is
  \<^verbatim>\<open>socketRef.current\<close> as read during the render, before the effect runs.
\<close>

definition useWebSocket ::
  "string \<Rightarrow> 'cb \<Rightarrow> ('cb, 'z) adapter_scheme \<Rightarrow> nat option \<times> ('cb, 'z) adapter_scheme" where
  "useWebSocket u cb s = (socketRef s, ws_commit u cb s)"

text \<open>Unmounting runs the cleanup of the committed effect.\<close>

definition ws_unmount :: "('cb, 'z) adapter_scheme \<Rightarrow> ('cb, 'z) adapter_scheme" where
  "ws_unmount s = (if ws_deps s = None then s else (ws_cleanup s)\<lparr>ws_deps := None\<rparr>)"

subsection \<open>Events of a socket\<close>

definition ws_open :: "nat \<Rightarrow> ('cb, 'z) adapter_scheme \<Rightarrow> ('cb, 'z) adapter_scheme" where
  "ws_open h s =
     (if h < length (sockets s) \<and> readyState (sockets s ! h) = CONNECTING
      then s\<lparr>sockets := (sockets s)[h := (sockets s ! h)\<lparr>readyState := OPEN\<rparr>],
             console := console s @ [''Websocket connected!'']\<rparr>
      else s)"

definition ws_close :: "nat \<Rightarrow> ('cb, 'z) adapter_scheme \<Rightarrow> ('cb, 'z) adapter_scheme" where
  "ws_close h s =
     (if h < length (sockets s) \<and> readyState (sockets s ! h) \<noteq> CLOSED
      then s\<lparr>sockets := (sockets s)[h := (sockets s ! h)\<lparr>readyState := CLOSED\<rparr>],
             console := console s @ [''Websocket disconnected!'']\<rparr>
      else s)"

text \<open>
  A frame with payload \<open>d\<close> on socket \<open>h\<close>. The host dispatches a message event only
  to an open socket. The handler (line 9) evaluates \<^verbatim>\<open>JSON.parse(event.data)\<close>
  first: \<open>parse d = None\<close> is the SyntaxError it throws, which nothing in the handler
  catches. Otherwise the captured \<^verbatim>\<open>onMessage\<close> is called; \<open>call\<close> is what that
  reference does.
\<close>

definition ws_message ::
  "(string \<Rightarrow> 'm option) \<Rightarrow> ('cb \<Rightarrow> 'm \<Rightarrow> ('cb, 'z) adapter_scheme \<Rightarrow> exn option \<times> ('cb, 'z) adapter_scheme)
   \<Rightarrow> nat \<Rightarrow> string \<Rightarrow> ('cb, 'z) adapter_scheme \<Rightarrow> exn option \<times> ('cb, 'z) adapter_scheme" where
  "ws_message parse call h d s =
     (if h < length (sockets s) \<and> readyState (sockets s ! h) = OPEN
      then (case parse d of
              None \<Rightarrow> (Some SyntaxError, s)
            | Some m \<Rightarrow> call (onMessage (sockets s ! h)) m s)
      else (None, s))"

section \<open>useBatchedMessages\<close>

record interval_timer =
  handle :: nat
  period :: nat
  onBatchMessage :: nat

text \<open>One call of \<^verbatim>\<open>onBatchMessage\<close>: the reference called, the array passed, what it held.\<close>

record 'm delivery =
  consumer :: nat
  array :: nat
  contents :: "'m list"

text \<open>
  The state of a component that calls \<^verbatim>\<open>useBatchedMessages\<close>. Arrays live in a store
  (an array is named by its index) because the array passed to the consumer and the
  array behind \<^verbatim>\<open>batchRef.current\<close> may be the same object. The message handler
  given to \<^verbatim>\<open>useWebSocket\<close> is a closure created anew by every render; its reference
  is the number of the render that created it.
\<close>

record 'm coalescer = "nat adapter" +
  arrays :: "'m list list"
  batchRef :: nat
  timers :: "interval_timer list"
  next_handle :: nat
  timer_effect :: "((nat \<times> nat) \<times> nat) option"
  renders :: nat
  calls :: "'m delivery list"

definition init :: "'m coalescer" where
  "init = \<lparr>sockets = [], console = [], socketRef = None, ws_deps = None, phase = Fresh,
           arrays = [], batchRef = 0, timers = [], next_handle = 0, timer_effect = None,
           renders = 0, calls = []\<rparr>"

definition buffer :: "'m coalescer \<Rightarrow> 'm list" where
  "buffer w = (if batchRef w < length (arrays w) then arrays w ! batchRef w else [])"

text \<open>The handler of lines 5 to 7: \<^verbatim>\<open>batchRef.current.push(message)\<close>.\<close>

definition push_message :: "nat \<Rightarrow> 'm \<Rightarrow> 'm coalescer \<Rightarrow> exn option \<times> 'm coalescer" where
  "push_message cb m w =
     (None, w\<lparr>arrays := (arrays w)[batchRef w := arrays w ! batchRef w @ [m] ]\<rparr>)"

text \<open>
  The interval callback of lines 10 to 15. \<open>out\<close> is how the call of
  \<^verbatim>\<open>onBatchMessage\<close> ends, should it be made: when it throws, the assignment of
  line 13 is not reached and the exception leaves the callback.
\<close>

definition flush :: "nat \<Rightarrow> outcome \<Rightarrow> 'm coalescer \<Rightarrow> exn option \<times> 'm coalescer" where
  "flush onBatch out w =
     (if length (arrays w ! batchRef w) \<noteq> 0
      then (let w1 = w\<lparr>calls := calls w @
                         [\<lparr>consumer = onBatch, array = batchRef w,
                           contents = arrays w ! batchRef w\<rparr>]\<rparr>
            in case out of
                 Throws \<Rightarrow> (Some ConsumerError, w1)
               | Returns \<Rightarrow> (None, w1\<lparr>arrays := arrays w1 @ [ [] ],
                                      batchRef := length (arrays w1)\<rparr>))
      else (None, w))"

definition setInterval :: "nat \<Rightarrow> nat \<Rightarrow> 'm coalescer \<Rightarrow> nat \<times> 'm coalescer" where
  "setInterval p onBatch w =
     (next_handle w,
      w\<lparr>timers := timers w @ [\<lparr>handle = next_handle w, period = p, onBatchMessage = onBatch\<rparr>],
        next_handle := Suc (next_handle w)\<rparr>)"

definition clearInterval :: "nat \<Rightarrow> 'm coalescer \<Rightarrow> 'm coalescer" where
  "clearInterval h w = w\<lparr>timers := filter (\<lambda>t. handle t \<noteq> h) (timers w)\<rparr>"

text \<open>The effect of lines 9 to 20 with dependencies \<^verbatim>\<open>[batchInterval, onBatchMessage]\<close>.\<close>

definition interval_effect :: "nat \<Rightarrow> nat \<Rightarrow> 'm coalescer \<Rightarrow> 'm coalescer" where
  "interval_effect p onBatch w =
     (case setInterval p onBatch w of
        (interval, w') \<Rightarrow> w'\<lparr>timer_effect := Some ((p, onBatch), interval)\<rparr>)"

definition interval_cleanup :: "'m coalescer \<Rightarrow> 'm coalescer" where
  "interval_cleanup w =
     (case timer_effect w of
        None \<Rightarrow> w
      | Some (deps, interval) \<Rightarrow> clearInterval interval w)"

definition interval_commit :: "nat \<Rightarrow> nat \<Rightarrow> 'm coalescer \<Rightarrow> 'm coalescer" where
  "interval_commit p onBatch w =
     (if map_option fst (timer_effect w) \<noteq> Some (p, onBatch)
      then interval_effect p onBatch (if timer_effect w = None then w else interval_cleanup w)
      else w)"

text \<open>The default of the third parameter: \<^verbatim>\<open>batchInterval = 100\<close> when omitted.\<close>

definition batchInterval :: "nat option \<Rightarrow> nat" where
  "batchInterval iv = (case iv of None \<Rightarrow> 100 | Some n \<Rightarrow> n)"

text \<open>
  One render of the component. \<^verbatim>\<open>useRef([])\<close> allocates the array on the first
  render only. \<open>iv = None\<close> is an omitted \<^verbatim>\<open>batchInterval\<close>.
  React runs the cleanups of both effects before either effect body; the two effects
  act on separate parts of the state (lemma \<open>commit_order\<close> below), so they are run
  here hook by hook, as the source calls them.
\<close>

definition useBatchedMessages :: "string \<Rightarrow> nat \<Rightarrow> nat option \<Rightarrow> 'm coalescer \<Rightarrow> 'm coalescer" where
  "useBatchedMessages u onBatch iv w =
     (let w0 = (if phase w = Fresh
                then w\<lparr>phase := Mounted, arrays := arrays w @ [ [] ], batchRef := length (arrays w)\<rparr>
                else w);
          handler = renders w0;
          w1 = w0\<lparr>renders := Suc (renders w0)\<rparr>;
          (socket, w2) = useWebSocket u handler w1
      in interval_commit (batchInterval iv) onBatch w2)"

text \<open>Unmounting runs the cleanups of both effects; the instance is not rendered again.\<close>

definition unmount :: "'m coalescer \<Rightarrow> 'm coalescer" where
  "unmount w =
     (if phase w = Mounted
      then (interval_cleanup (ws_unmount w))\<lparr>timer_effect := None, phase := Unmounted\<rparr>
      else w)"

section \<open>The event loop\<close>

text \<open>
  Everything runs on one thread, one event at a time, each to completion. An exception
  that leaves a handler is reported by the host and the loop goes on: neither a socket
  nor an interval is touched by it.
\<close>

datatype event =
    Render string nat "nat option"
  | Unmount
  | Opened nat
  | Closed nat
  | Frame nat string
  | Tick nat outcome

fun dispatch :: "(string \<Rightarrow> 'm option) \<Rightarrow> event \<Rightarrow> 'm coalescer \<Rightarrow> exn option \<times> 'm coalescer" where
  "dispatch parse (Render u onBatch iv) w =
     (None, if phase w = Unmounted then w else useBatchedMessages u onBatch iv w)"
| "dispatch parse Unmount w = (None, unmount w)"
| "dispatch parse (Opened h) w = (None, ws_open h w)"
| "dispatch parse (Closed h) w = (None, ws_close h w)"
| "dispatch parse (Frame h d) w = ws_message parse push_message h d w"
| "dispatch parse (Tick t out) w =
     (case find (\<lambda>x. handle x = t) (timers w) of
        None \<Rightarrow> (None, w)
      | Some x \<Rightarrow> flush (onBatchMessage x) out w)"

fun run :: "(string \<Rightarrow> 'm option) \<Rightarrow> event list \<Rightarrow> 'm coalescer \<Rightarrow> 'm coalescer" where
  "run parse [] w = w"
| "run parse (e # es) w = run parse es (snd (dispatch parse e w))"

section \<open>Received and delivered messages\<close>

text \<open>
  The messages a frame hands to \<^verbatim>\<open>onMessage\<close>: the decoded payload when the socket
  is open and the payload decodes, nothing otherwise.
\<close>

definition decoded :: "(string \<Rightarrow> 'm option) \<Rightarrow> nat \<Rightarrow> string \<Rightarrow> ('cb, 'z) adapter_scheme \<Rightarrow> 'm list" where
  "decoded parse h d s =
     (if h < length (sockets s) \<and> readyState (sockets s ! h) = OPEN
      then (case parse d of None \<Rightarrow> [] | Some m \<Rightarrow> [m])
      else [])"

text \<open>The received messages of a run, in arrival order.\<close>

fun arrivals :: "(string \<Rightarrow> 'm option) \<Rightarrow> event list \<Rightarrow> 'm coalescer \<Rightarrow> 'm list" where
  "arrivals parse [] w = []"
| "arrivals parse (e # es) w =
     (case e of Frame h d \<Rightarrow> decoded parse h d w | _ \<Rightarrow> []) @
     arrivals parse es (snd (dispatch parse e w))"

text \<open>The messages handed to the consumer so far, batch after batch.\<close>

definition delivered :: "'m coalescer \<Rightarrow> 'm list" where
  "delivered w = concat (map contents (calls w))"

text \<open>Events of the transport only: no render, no unmount, no tick.\<close>

fun socket_event :: "event \<Rightarrow> bool" where
  "socket_event (Opened h) = True"
| "socket_event (Closed h) = True"
| "socket_event (Frame h d) = True"
| "socket_event e = False"

text \<open>Every event but a tick whose \<^verbatim>\<open>onBatchMessage\<close> call throws.\<close>

fun returns :: "event \<Rightarrow> bool" where
  "returns (Tick t Throws) = False"
| "returns e = True"

text \<open>The ticks of a timer.\<close>

fun tick :: "event \<Rightarrow> bool" where
  "tick (Tick t out) = True"
| "tick e = False"

definition closing :: "'cb websocket \<Rightarrow> bool" where
  "closing s = (readyState s = CLOSING \<or> readyState s = CLOSED)"

text \<open>
  A component that calls \<^verbatim>\<open>useWebSocket\<close> directly: the states reached from the
  first render by renders and by the transport opening and closing sockets.
\<close>

definition adapter_init :: "'cb adapter" where
  "adapter_init = \<lparr>sockets = [], console = [], socketRef = None, ws_deps = None, phase = Fresh\<rparr>"

inductive activated :: "'cb adapter \<Rightarrow> bool" where
  start: "activated adapter_init"
| render: "activated s \<Longrightarrow> activated (snd (useWebSocket u cb s))"
| opened: "activated s \<Longrightarrow> activated (ws_open h s)"
| closed: "activated s \<Longrightarrow> activated (ws_close h s)"

subsection \<open>Invariants of the reachable states\<close>

definition sockets_ok :: "('cb, 'z) adapter_scheme \<Rightarrow> bool" where
  "sockets_ok s \<longleftrightarrow>
     (\<forall>h. socketRef s = Some h \<longrightarrow> h < length (sockets s)) \<and>
     (ws_deps s \<noteq> None \<longrightarrow> socketRef s \<noteq> None) \<and>
     (\<forall>i < length (sockets s). ws_deps s = None \<or> socketRef s \<noteq> Some i \<longrightarrow> closing (sockets s ! i))"

definition timers_ok :: "'m coalescer \<Rightarrow> bool" where
  "timers_ok w \<longleftrightarrow>
     timers w = (case timer_effect w of
                   None \<Rightarrow> []
                 | Some (d, h) \<Rightarrow> [\<lparr>handle = h, period = fst d, onBatchMessage = snd d\<rparr>]) \<and>
     (\<forall>d h. timer_effect w = Some (d, h) \<longrightarrow> h < next_handle w)"

definition wf :: "'m coalescer \<Rightarrow> bool" where
  "wf w \<longleftrightarrow>
     timers_ok w \<and> sockets_ok w \<and>
     (phase w = Fresh \<longrightarrow> sockets w = [] \<and> arrays w = []) \<and>
     (phase w \<noteq> Fresh \<longrightarrow> batchRef w < length (arrays w)) \<and>
     (phase w = Mounted) = (timer_effect w \<noteq> None) \<and>
     (phase w = Mounted) = (ws_deps w \<noteq> None) \<and>
     (\<forall>u k. ws_deps w = Some (u, k) \<longrightarrow> k < renders w)"

text \<open>
  Under a consumer that returns, an array handed over is no longer the live one and
  still holds what was handed over.
\<close>

definition detached :: "'m coalescer \<Rightarrow> bool" where
  "detached w \<longleftrightarrow>
     (\<forall>c \<in> set (calls w). array c < batchRef w \<and> arrays w ! array c = contents c) \<and>
     sorted_wrt (<) (map array (calls w)) \<and>
     (phase w = Fresh \<longrightarrow> calls w = [])"

subsection \<open>Concrete runs\<close>

text \<open>
  A decoder for concrete runs. It agrees with \<^verbatim>\<open>JSON.parse\<close> on the payloads used
  below: the numerals 1, 2 and 3 decode to their value, and a lone opening brace is
  malformed.
\<close>

definition digit_parse :: "string \<Rightarrow> nat option" where
  "digit_parse d =
     (if d = ''1'' then Some 1 else if d = ''2'' then Some 2 else if d = ''3'' then Some 3
      else None)"

text \<open>Mount with consumer 7 and the default interval; the socket opens.\<close>

definition session :: "event list" where
  "session = [Render ''wss://stocks.example.com'' 7 None, Opened 0]"

text \<open>The state this run reaches.\<close>

definition live :: "nat coalescer" where
  "live = \<lparr>sockets = [\<lparr>url = ''wss://stocks.example.com'', readyState = OPEN, onMessage = 0\<rparr>],
           console = [''Websocket connected!''], socketRef = Some 0,
           ws_deps = Some (''wss://stocks.example.com'', 0), phase = Mounted,
           arrays = [ [] ], batchRef = 0,
           timers = [\<lparr>handle = 0, period = 100, onBatchMessage = 7\<rparr>], next_handle = 1,
           timer_effect = Some ((100, 7), 0), renders = 1, calls = []\<rparr>"

section \<open>Invariants\<close>

text \<open>
  \<open>wf\<close> holds in every state a run reaches from \<open>init\<close> (lemma \<open>wf_reachable\<close>):
  the live timers are exactly the one of the committed interval effect, the ref of a
  mounted component holds a constructed socket, every other socket has had
  \<^verbatim>\<open>close()\<close> called on it, and \<^verbatim>\<open>batchRef.current\<close> is an allocated array.
\<close>

lemma wfI:
  assumes "timers_ok w" "sockets_ok w"
    "phase w = Fresh \<Longrightarrow> sockets w = [] \<and> arrays w = []"
    "phase w \<noteq> Fresh \<Longrightarrow> batchRef w < length (arrays w)"
    "(phase w = Mounted) = (timer_effect w \<noteq> None)"
    "(phase w = Mounted) = (ws_deps w \<noteq> None)"
    "\<And>u k. ws_deps w = Some (u, k) \<Longrightarrow> k < renders w"
  shows "wf w"
  unfolding wf_def using assms by blast

lemma wfD:
  assumes "wf w"
  shows "timers_ok w" "sockets_ok w"
    "phase w = Fresh \<Longrightarrow> sockets w = []" "phase w = Fresh \<Longrightarrow> arrays w = []"
    "phase w \<noteq> Fresh \<Longrightarrow> batchRef w < length (arrays w)"
    "(phase w = Mounted) = (timer_effect w \<noteq> None)"
    "(phase w = Mounted) = (ws_deps w \<noteq> None)"
    "ws_deps w = Some (u, k) \<Longrightarrow> k < renders w"
  using assms unfolding wf_def by blast+

lemma closing_close: "closing (close s)"
  by (simp add: closing_def close_def)

lemma sockets_ok_effect:
  assumes "\<forall>h. socketRef s = Some h \<longrightarrow> h < length (sockets s)"
    and "\<forall>i < length (sockets s). closing (sockets s ! i)"
  shows "sockets_ok (ws_effect u cb s)"
  using assms by (auto simp: sockets_ok_def ws_effect_def nth_append)

lemma sockets_ok_cleanup:
  assumes "sockets_ok s"
  shows "\<forall>i < length (sockets (ws_cleanup s)). closing (sockets (ws_cleanup s) ! i)"
    and "socketRef (ws_cleanup s) = socketRef s"
    and "length (sockets (ws_cleanup s)) = length (sockets s)"
    and "ws_deps (ws_cleanup s) = ws_deps s"
  using assms
  by (auto simp: sockets_ok_def ws_cleanup_def nth_list_update closing_close split: option.splits)

lemma sockets_ok_commit:
  assumes "sockets_ok s"
  shows "sockets_ok (ws_commit u cb s)"
proof (cases "ws_deps s = Some (u, cb)")
  case True
  then show ?thesis using assms by (simp add: ws_commit_def)
next
  case False
  show ?thesis
  proof (cases "ws_deps s = None")
    case True
    from assms True have "\<forall>i<length (sockets s). closing (sockets s ! i)"
      by (simp add: sockets_ok_def)
    moreover from assms have "\<forall>h. socketRef s = Some h \<longrightarrow> h < length (sockets s)"
      by (simp add: sockets_ok_def)
    ultimately have "sockets_ok (ws_effect u cb s)"
      by (intro sockets_ok_effect)
    with True False show ?thesis by (simp add: ws_commit_def)
  next
    case nn: False
    have "sockets_ok (ws_effect u cb (ws_cleanup s))"
      using sockets_ok_cleanup[OF assms] assms
      by (intro sockets_ok_effect) (auto simp: sockets_ok_def)
    with False nn show ?thesis by (auto simp add: ws_commit_def)
  qed
qed

lemma sockets_ok_unmount: "sockets_ok s \<Longrightarrow> sockets_ok (ws_unmount s)"
  using sockets_ok_cleanup[of s]
  by (auto simp: ws_unmount_def sockets_ok_def)

lemma sockets_ok_open: "sockets_ok s \<Longrightarrow> sockets_ok (ws_open h s)"
  by (auto simp: ws_open_def sockets_ok_def closing_def nth_list_update)

lemma sockets_ok_close: "sockets_ok s \<Longrightarrow> sockets_ok (ws_close h s)"
  by (auto simp: ws_close_def sockets_ok_def closing_def nth_list_update)

lemma timers_ok_commit: "timers_ok w \<Longrightarrow> timers_ok (interval_commit p ob w)"
  by (auto simp: timers_ok_def interval_commit_def interval_effect_def interval_cleanup_def
      setInterval_def clearInterval_def split: option.splits)

lemma ws_commit_frame [simp]:
  "arrays (ws_commit u cb w) = arrays w" "batchRef (ws_commit u cb w) = batchRef w"
  "timers (ws_commit u cb w) = timers w" "next_handle (ws_commit u cb w) = next_handle w"
  "timer_effect (ws_commit u cb w) = timer_effect w" "renders (ws_commit u cb w) = renders w"
  "calls (ws_commit u cb w) = calls w" "phase (ws_commit u cb w) = phase w"
  "console (ws_commit u cb w) = console w"
  by (simp_all add: ws_commit_def ws_effect_def ws_cleanup_def split: option.splits)

lemma interval_commit_frame [simp]:
  "arrays (interval_commit p ob w) = arrays w" "batchRef (interval_commit p ob w) = batchRef w"
  "sockets (interval_commit p ob w) = sockets w" "socketRef (interval_commit p ob w) = socketRef w"
  "ws_deps (interval_commit p ob w) = ws_deps w" "renders (interval_commit p ob w) = renders w"
  "calls (interval_commit p ob w) = calls w" "phase (interval_commit p ob w) = phase w"
  "console (interval_commit p ob w) = console w"
  by (simp_all add: interval_commit_def interval_effect_def interval_cleanup_def
      setInterval_def clearInterval_def split: option.splits)

lemma interval_commit_effect: "timer_effect (interval_commit p ob w) \<noteq> None"
  by (auto simp: interval_commit_def interval_effect_def interval_cleanup_def
      setInterval_def clearInterval_def split: option.splits)

lemma ws_commit_deps: "ws_deps (ws_commit u cb s) = Some (u, cb)"
  by (simp add: ws_commit_def ws_effect_def)

lemma sockets_ok_cong:
  "sockets s' = sockets s \<Longrightarrow> socketRef s' = socketRef s \<Longrightarrow> ws_deps s' = ws_deps s
   \<Longrightarrow> sockets_ok s' = sockets_ok s"
  by (simp add: sockets_ok_def)

lemma timers_ok_cong:
  "timers s' = timers s \<Longrightarrow> timer_effect s' = timer_effect s \<Longrightarrow> next_handle s' = next_handle s
   \<Longrightarrow> timers_ok s' = timers_ok s"
  by (simp add: timers_ok_def)

lemma render_unfold:
  "useBatchedMessages u ob iv w =
     interval_commit (batchInterval iv) ob
       (ws_commit u (renders w)
          ((if phase w = Fresh
            then w\<lparr>phase := Mounted, arrays := arrays w @ [ [] ], batchRef := length (arrays w)\<rparr>
            else w)\<lparr>renders := Suc (renders w)\<rparr>))"
  by (simp add: useBatchedMessages_def useWebSocket_def Let_def)

lemma wf_render:
  assumes "wf w" "phase w \<noteq> Unmounted"
  shows "wf (useBatchedMessages u ob iv w)"
proof -
  define w1 where "w1 = (if phase w = Fresh
            then w\<lparr>phase := Mounted, arrays := arrays w @ [ [] ], batchRef := length (arrays w)\<rparr>
            else w)\<lparr>renders := Suc (renders w)\<rparr>"
  define w2 where "w2 = ws_commit u (renders w) w1"
  have eq: "useBatchedMessages u ob iv w = interval_commit (batchInterval iv) ob w2"
    by (simp add: render_unfold w1_def w2_def)
  have m: "phase w1 = Mounted" using assms(2) by (cases "phase w") (simp_all add: w1_def)
  have "sockets_ok w1 = sockets_ok w" by (rule sockets_ok_cong) (simp_all add: w1_def)
  then have s2: "sockets_ok w2" using assms(1) by (simp add: w2_def sockets_ok_commit wf_def)
  have "timers_ok w1 = timers_ok w" by (rule timers_ok_cong) (simp_all add: w1_def)
  moreover have "timers_ok w2 = timers_ok w1" by (rule timers_ok_cong) (simp_all add: w2_def)
  ultimately have t2: "timers_ok w2" using assms(1) by (simp add: wf_def)
  have h: "batchRef w1 < length (arrays w1)" using assms by (simp add: w1_def wf_def)
  show ?thesis
    unfolding eq wf_def
    apply (intro conjI)
          apply (simp add: timers_ok_commit t2)
    using s2 sockets_ok_cong[of "interval_commit (batchInterval iv) ob w2" w2] apply simp
    using m apply (simp add: w2_def)
    using h apply (simp add: w2_def)
    using m apply (simp add: w2_def interval_commit_effect)
    using m apply (simp add: w2_def ws_commit_deps)
    apply (simp add: w2_def ws_commit_deps w1_def)
    done
qed

lemma ws_unmount_frame [simp]:
  "arrays (ws_unmount w) = arrays w" "batchRef (ws_unmount w) = batchRef w"
  "timers (ws_unmount w) = timers w" "next_handle (ws_unmount w) = next_handle w"
  "timer_effect (ws_unmount w) = timer_effect w" "renders (ws_unmount w) = renders w"
  "calls (ws_unmount w) = calls w" "phase (ws_unmount w) = phase w"
  "console (ws_unmount w) = console w" "ws_deps (ws_unmount w) = None"
  by (simp_all add: ws_unmount_def ws_cleanup_def split: option.splits)

lemma interval_cleanup_frame [simp]:
  "arrays (interval_cleanup w) = arrays w" "batchRef (interval_cleanup w) = batchRef w"
  "sockets (interval_cleanup w) = sockets w" "socketRef (interval_cleanup w) = socketRef w"
  "ws_deps (interval_cleanup w) = ws_deps w" "renders (interval_cleanup w) = renders w"
  "calls (interval_cleanup w) = calls w" "phase (interval_cleanup w) = phase w"
  "console (interval_cleanup w) = console w"
  by (simp_all add: interval_cleanup_def clearInterval_def split: option.splits)

lemma interval_cleanup_handle [simp]: "next_handle (interval_cleanup w) = next_handle w"
  by (simp add: interval_cleanup_def clearInterval_def split: option.splits)

lemma timers_cleanup: "timers_ok w \<Longrightarrow> timers (interval_cleanup w) = []"
  by (auto simp: timers_ok_def interval_cleanup_def clearInterval_def split: option.splits)

lemma wf_unmount:
  assumes "wf w"
  shows "wf (unmount w)"
proof (cases "phase w = Mounted")
  case False
  then show ?thesis using assms by (simp add: unmount_def)
next
  case True
  define w1 where "w1 = interval_cleanup (ws_unmount w)"
  have eq: "unmount w = w1\<lparr>timer_effect := None, phase := Unmounted\<rparr>"
    using True by (simp add: unmount_def w1_def)
  have "timers_ok (ws_unmount w) = timers_ok w" by (rule timers_ok_cong) simp_all
  then have t: "timers w1 = []" using assms by (simp add: w1_def timers_cleanup wf_def)
  have "sockets_ok w1 = sockets_ok (ws_unmount w)" by (rule sockets_ok_cong) (simp_all add: w1_def)
  then have s: "sockets_ok w1" using assms by (simp add: sockets_ok_unmount wf_def)
  have s': "sockets_ok (w1\<lparr>timer_effect := None, phase := Unmounted\<rparr>) = sockets_ok w1"
    by (rule sockets_ok_cong) simp_all
  have n: "timer_effect (w1\<lparr>timer_effect := None, phase := Unmounted\<rparr>) = None"
    "timers (w1\<lparr>timer_effect := None, phase := Unmounted\<rparr>) = []"
    "phase (w1\<lparr>timer_effect := None, phase := Unmounted\<rparr>) = Unmounted"
    "ws_deps (w1\<lparr>timer_effect := None, phase := Unmounted\<rparr>) = None"
    "batchRef (w1\<lparr>timer_effect := None, phase := Unmounted\<rparr>) = batchRef w"
    "arrays (w1\<lparr>timer_effect := None, phase := Unmounted\<rparr>) = arrays w"
    using t by (simp_all add: w1_def)
  show ?thesis
    unfolding eq
  proof (rule wfI)
    show "timers_ok (w1\<lparr>timer_effect := None, phase := Unmounted\<rparr>)"
      by (simp add: timers_ok_def t)
    show "sockets_ok (w1\<lparr>timer_effect := None, phase := Unmounted\<rparr>)"
      by (simp only: s' s)
    show "batchRef (w1\<lparr>timer_effect := None, phase := Unmounted\<rparr>)
          < length (arrays (w1\<lparr>timer_effect := None, phase := Unmounted\<rparr>))"
      unfolding n using wfD(5)[OF assms] True by simp
  qed (simp_all add: n)
qed

lemma ws_open_frame [simp]:
  "arrays (ws_open h w) = arrays w" "batchRef (ws_open h w) = batchRef w"
  "timers (ws_open h w) = timers w" "next_handle (ws_open h w) = next_handle w"
  "timer_effect (ws_open h w) = timer_effect w" "renders (ws_open h w) = renders w"
  "calls (ws_open h w) = calls w" "phase (ws_open h w) = phase w"
  "ws_deps (ws_open h w) = ws_deps w" "socketRef (ws_open h w) = socketRef w"
  "length (sockets (ws_open h w)) = length (sockets w)"
  by (simp_all add: ws_open_def)

lemma ws_close_frame [simp]:
  "arrays (ws_close h w) = arrays w" "batchRef (ws_close h w) = batchRef w"
  "timers (ws_close h w) = timers w" "next_handle (ws_close h w) = next_handle w"
  "timer_effect (ws_close h w) = timer_effect w" "renders (ws_close h w) = renders w"
  "calls (ws_close h w) = calls w" "phase (ws_close h w) = phase w"
  "ws_deps (ws_close h w) = ws_deps w" "socketRef (ws_close h w) = socketRef w"
  "length (sockets (ws_close h w)) = length (sockets w)"
  by (simp_all add: ws_close_def)

lemma wf_transfer:
  assumes "wf w" "sockets_ok w'" "timers w' = timers w" "timer_effect w' = timer_effect w"
    "length (sockets w') = length (sockets w)" "ws_deps w' = ws_deps w" "phase w' = phase w"
    "length (arrays w') = length (arrays w)" "batchRef w' = batchRef w" "renders w' = renders w"
    "next_handle w' = next_handle w"
  shows "wf w'"
proof (rule wfI)
  show "timers_ok w'" using wfD(1)[OF assms(1)] assms(3,4,11) by (simp add: timers_ok_def)
  show "sockets_ok w'" by (rule assms(2))
  show "sockets w' = [] \<and> arrays w' = []" if "phase w' = Fresh"
    using that wfD(3,4)[OF assms(1)] assms(5,7,8) by simp
  show "batchRef w' < length (arrays w')" if "phase w' \<noteq> Fresh"
    using that wfD(5)[OF assms(1)] assms(7,8,9) by simp
  show "(phase w' = Mounted) = (timer_effect w' \<noteq> None)"
    unfolding assms(4,7) by (rule wfD(6)[OF assms(1)])
  show "(phase w' = Mounted) = (ws_deps w' \<noteq> None)"
    unfolding assms(6,7) by (rule wfD(7)[OF assms(1)])
  show "k < renders w'" if "ws_deps w' = Some (u, k)" for u k
    using that wfD(8)[OF assms(1), of u k] assms(6,10) by simp
qed

lemma wf_sockets_ok: "wf w \<Longrightarrow> sockets_ok w"
  by (simp add: wf_def)

lemma wf_open: "wf w \<Longrightarrow> wf (ws_open h w)"
  by (rule wf_transfer[of w]) (simp_all add: sockets_ok_open wf_sockets_ok)

lemma wf_close: "wf w \<Longrightarrow> wf (ws_close h w)"
  by (rule wf_transfer[of w]) (simp_all add: sockets_ok_close wf_sockets_ok)

lemma frame_state:
  "snd (ws_message parse push_message h d w) =
     w\<lparr>arrays := (arrays w)[batchRef w := arrays w ! batchRef w @ decoded parse h d w]\<rparr>"
  by (auto simp: ws_message_def push_message_def decoded_def split: option.splits)

lemma wf_arrays_update:
  assumes "wf w"
  shows "wf (w\<lparr>arrays := (arrays w)[a := xs]\<rparr>)"
proof -
  have "sockets_ok (w\<lparr>arrays := (arrays w)[a := xs]\<rparr>)"
    using wfD(2)[OF assms] by (simp add: sockets_ok_def)
  then show ?thesis by (rule wf_transfer[OF assms]) simp_all
qed

lemma wf_frame: "wf w \<Longrightarrow> wf (snd (ws_message parse push_message h d w))"
  by (simp only: frame_state wf_arrays_update)

lemma flush_frame [simp]:
  "sockets (snd (flush ob out w)) = sockets w" "socketRef (snd (flush ob out w)) = socketRef w"
  "ws_deps (snd (flush ob out w)) = ws_deps w" "renders (snd (flush ob out w)) = renders w"
  "phase (snd (flush ob out w)) = phase w" "console (snd (flush ob out w)) = console w"
  "timers (snd (flush ob out w)) = timers w" "timer_effect (snd (flush ob out w)) = timer_effect w"
  "next_handle (snd (flush ob out w)) = next_handle w"
  by (cases out; simp add: flush_def Let_def)+

lemma wf_flush:
  assumes "wf w" "phase w \<noteq> Fresh"
  shows "wf (snd (flush ob out w))"
proof -
  define w' where "w' = snd (flush ob out w)"
  have f: "sockets w' = sockets w" "socketRef w' = socketRef w" "ws_deps w' = ws_deps w"
    "renders w' = renders w" "phase w' = phase w" "timers w' = timers w"
    "timer_effect w' = timer_effect w" "next_handle w' = next_handle w"
    by (simp_all add: w'_def)
  have b: "batchRef w' < length (arrays w')"
    using wfD(5)[OF assms] by (cases out) (simp_all add: w'_def flush_def Let_def)
  have "wf w'"
  proof (rule wfI)
    show "timers_ok w'" using wfD(1)[OF assms(1)] by (simp add: timers_ok_def f)
    show "sockets_ok w'" using wfD(2)[OF assms(1)] by (simp add: sockets_ok_def f)
    show "sockets w' = [] \<and> arrays w' = []" if "phase w' = Fresh"
      using that assms(2) by (simp add: f)
    show "batchRef w' < length (arrays w')" by (rule b)
    show "(phase w' = Mounted) = (timer_effect w' \<noteq> None)"
      unfolding f by (rule wfD(6)[OF assms(1)])
    show "(phase w' = Mounted) = (ws_deps w' \<noteq> None)"
      unfolding f by (rule wfD(7)[OF assms(1)])
    show "k < renders w'" if "ws_deps w' = Some (u, k)" for u k
      using that wfD(8)[OF assms(1), of u k] by (simp add: f)
  qed
  then show ?thesis by (simp add: w'_def)
qed

lemma live_timer_mounted:
  assumes "wf w" "find P (timers w) = Some x"
  shows "phase w = Mounted"
proof -
  from assms(2) have "timers w \<noteq> []" by auto
  with assms(1) show ?thesis by (auto simp: wf_def timers_ok_def split: option.splits)
qed

lemma wf_dispatch:
  assumes "wf w"
  shows "wf (snd (dispatch parse e w))"
proof (cases e)
  case (Tick t out)
  show ?thesis
  proof (cases "find (\<lambda>x. handle x = t) (timers w)")
    case None
    with Tick assms show ?thesis by simp
  next
    case (Some x)
    from live_timer_mounted[OF assms Some] have "phase w \<noteq> Fresh" by simp
    with Tick Some assms show ?thesis by (simp add: wf_flush)
  qed
qed (use assms in \<open>simp_all add: wf_render wf_unmount wf_open wf_close wf_frame\<close>)

lemma wf_run: "wf w \<Longrightarrow> wf (run parse evs w)"
  by (induction evs arbitrary: w) (simp_all add: wf_dispatch)

lemma wf_init: "wf init"
  by (simp add: wf_def init_def timers_ok_def sockets_ok_def)

lemma wf_reachable: "wf (run parse evs init)"
  by (simp add: wf_run wf_init)

lemma render_frame [simp]:
  "calls (useBatchedMessages u ob iv w) = calls w"
  "phase w \<noteq> Fresh \<Longrightarrow> arrays (useBatchedMessages u ob iv w) = arrays w"
  "phase w \<noteq> Fresh \<Longrightarrow> batchRef (useBatchedMessages u ob iv w) = batchRef w"
  "phase w \<noteq> Fresh \<Longrightarrow> phase (useBatchedMessages u ob iv w) = phase w"
  "phase w = Fresh \<Longrightarrow> arrays (useBatchedMessages u ob iv w) = arrays w @ [ [] ]"
  "phase w = Fresh \<Longrightarrow> batchRef (useBatchedMessages u ob iv w) = length (arrays w)"
  "phase w = Fresh \<Longrightarrow> phase (useBatchedMessages u ob iv w) = Mounted"
  by (simp_all add: render_unfold)

lemma unmount_frame [simp]:
  "calls (unmount w) = calls w" "arrays (unmount w) = arrays w" "batchRef (unmount w) = batchRef w"
  by (simp_all add: unmount_def)

lemma buffer_cong:
  "arrays w' = arrays w \<Longrightarrow> batchRef w' = batchRef w \<Longrightarrow> buffer w' = buffer w"
  by (simp add: buffer_def)

lemma buffer_frame:
  assumes "batchRef w < length (arrays w)"
  shows "buffer (snd (ws_message parse push_message h d w)) = buffer w @ decoded parse h d w"
  using assms by (simp add: frame_state buffer_def)

lemma frame_other [simp]:
  "calls (snd (ws_message parse push_message h d w)) = calls w"
  "batchRef (snd (ws_message parse push_message h d w)) = batchRef w"
  "timers (snd (ws_message parse push_message h d w)) = timers w"
  "timer_effect (snd (ws_message parse push_message h d w)) = timer_effect w"
  "phase (snd (ws_message parse push_message h d w)) = phase w"
  "sockets (snd (ws_message parse push_message h d w)) = sockets w"
  "socketRef (snd (ws_message parse push_message h d w)) = socketRef w"
  "console (snd (ws_message parse push_message h d w)) = console w"
  "length (arrays (snd (ws_message parse push_message h d w))) = length (arrays w)"
  "next_handle (snd (ws_message parse push_message h d w)) = next_handle w"
  "renders (snd (ws_message parse push_message h d w)) = renders w"
  "ws_deps (snd (ws_message parse push_message h d w)) = ws_deps w"
  by (simp_all add: frame_state)

lemma decoded_fresh: "wf w \<Longrightarrow> phase w = Fresh \<Longrightarrow> decoded parse h d w = []"
  by (simp add: decoded_def wfD(3))

text \<open>Socket events leave everything but the sockets, the console and the live array alone.\<close>

lemma socket_events_run:
  assumes "\<forall>e \<in> set es. socket_event e"
  shows "calls (run parse es w) = calls w \<and> batchRef (run parse es w) = batchRef w \<and>
         timers (run parse es w) = timers w \<and> timer_effect (run parse es w) = timer_effect w \<and>
         phase (run parse es w) = phase w \<and> length (arrays (run parse es w)) = length (arrays w)"
  using assms
proof (induction es arbitrary: w)
  case Nil
  then show ?case by simp
next
  case (Cons e es)
  from Cons.prems have "socket_event e" by simp
  then have "calls (snd (dispatch parse e w)) = calls w \<and>
     batchRef (snd (dispatch parse e w)) = batchRef w \<and>
     timers (snd (dispatch parse e w)) = timers w \<and>
     timer_effect (snd (dispatch parse e w)) = timer_effect w \<and>
     phase (snd (dispatch parse e w)) = phase w \<and>
     length (arrays (snd (dispatch parse e w))) = length (arrays w)"
    by (cases e) simp_all
  moreover from Cons.prems have "\<forall>e \<in> set es. socket_event e" by simp
  note Cons.IH[OF this, of "snd (dispatch parse e w)"]
  ultimately show ?case by simp
qed

lemma socket_events_buffer:
  assumes "wf w" "\<forall>e \<in> set es. socket_event e"
  shows "buffer (run parse es w) = buffer w @ arrivals parse es w"
  using assms
proof (induction es arbitrary: w)
  case Nil
  then show ?case by simp
next
  case (Cons e es)
  let ?w = "snd (dispatch parse e w)"
  from Cons.prems have se: "socket_event e" and rest: "\<forall>e \<in> set es. socket_event e" by simp_all
  have wf': "wf ?w" by (rule wf_dispatch[OF Cons.prems(1)])
  have step: "buffer ?w = buffer w @ (case e of Frame h d \<Rightarrow> decoded parse h d w | _ \<Rightarrow> [])"
  proof (cases e)
    case (Frame h d)
    show ?thesis
    proof (cases "phase w = Fresh")
      case True
      then have "arrays w = []" using wfD(4)[OF Cons.prems(1)] by simp
      then show ?thesis using Frame
        by (simp add: buffer_def frame_state decoded_fresh[OF Cons.prems(1) True])
    next
      case False
      then show ?thesis using Frame wfD(5)[OF Cons.prems(1)] by (simp add: buffer_frame)
    qed
  qed (use se in \<open>simp_all add: buffer_def\<close>)
  show ?case using Cons.IH[OF wf' rest] step by simp
qed

lemma flush_returns:
  assumes "batchRef w < length (arrays w)" "buffer w \<noteq> []"
  shows "flush ob Returns w =
    (None, w\<lparr>calls := calls w @ [\<lparr>consumer = ob, array = batchRef w, contents = buffer w\<rparr>],
             arrays := arrays w @ [ [] ], batchRef := length (arrays w)\<rparr>)"
  using assms by (simp add: flush_def buffer_def Let_def)

lemma flush_throws:
  assumes "batchRef w < length (arrays w)" "buffer w \<noteq> []"
  shows "flush ob Throws w =
    (Some ConsumerError,
     w\<lparr>calls := calls w @ [\<lparr>consumer = ob, array = batchRef w, contents = buffer w\<rparr>]\<rparr>)"
  using assms by (simp add: flush_def buffer_def Let_def)

lemma flush_empty:
  assumes "batchRef w < length (arrays w)" "buffer w = []"
  shows "flush ob out w = (None, w)"
  using assms by (simp add: flush_def buffer_def)

lemma tick_dead:
  assumes "wf w" "phase w \<noteq> Mounted"
  shows "dispatch parse (Tick t out) w = (None, w)"
proof -
  from wfD(6)[OF assms(1)] assms(2) have "timer_effect w = None" by blast
  with wfD(1)[OF assms(1)] have "timers w = []" by (simp add: timers_ok_def)
  then show ?thesis by simp
qed

lemma partition_step:
  assumes "wf w" "returns e"
  shows "delivered (snd (dispatch parse e w)) @ buffer (snd (dispatch parse e w)) =
         delivered w @ buffer w @ arrivals parse [e] w"
proof (cases e)
  case (Render u ob iv)
  show ?thesis
  proof (cases "phase w = Fresh")
    case True
    with wfD(4)[OF assms(1)] show ?thesis using Render
      by (simp add: delivered_def buffer_def)
  next
    case False
    then have "buffer (useBatchedMessages u ob iv w) = buffer w"
      by (intro buffer_cong) simp_all
    then show ?thesis using Render by (simp add: delivered_def)
  qed
next
  case Unmount
  have "buffer (unmount w) = buffer w" by (intro buffer_cong) simp_all
  then show ?thesis using Unmount by (simp add: delivered_def)
next
  case (Opened h)
  have "buffer (ws_open h w) = buffer w" by (intro buffer_cong) simp_all
  then show ?thesis using Opened by (simp add: delivered_def)
next
  case (Closed h)
  have "buffer (ws_close h w) = buffer w" by (intro buffer_cong) simp_all
  then show ?thesis using Closed by (simp add: delivered_def)
next
  case (Frame h d)
  have "buffer (run parse [e] w) = buffer w @ arrivals parse [e] w"
    by (rule socket_events_buffer[OF assms(1)]) (simp add: Frame)
  then show ?thesis using Frame by (simp add: delivered_def)
next
  case (Tick t out)
  with assms(2) have out: "out = Returns" by (cases out) simp_all
  show ?thesis
  proof (cases "find (\<lambda>x. handle x = t) (timers w)")
    case None
    then show ?thesis using Tick by simp
  next
    case (Some x)
    from live_timer_mounted[OF assms(1) Some] have "phase w \<noteq> Fresh" by simp
    then have v: "batchRef w < length (arrays w)" by (rule wfD(5)[OF assms(1)])
    show ?thesis
    proof (cases "buffer w = []")
      case True
      then show ?thesis using Tick Some by (simp add: flush_empty[OF v])
    next
      case False
      then show ?thesis using Tick Some out
        by (simp add: flush_returns[OF v] delivered_def buffer_def)
    qed
  qed
qed

lemma partition_run:
  assumes "wf w" "\<forall>e \<in> set evs. returns e"
  shows "delivered (run parse evs w) @ buffer (run parse evs w) =
         delivered w @ buffer w @ arrivals parse evs w"
  using assms
proof (induction evs arbitrary: w)
  case Nil
  then show ?case by simp
next
  case (Cons e evs)
  let ?w = "snd (dispatch parse e w)"
  from Cons.prems have r: "returns e" and rest: "\<forall>e \<in> set evs. returns e" by simp_all
  have "delivered (run parse evs ?w) @ buffer (run parse evs ?w) =
        delivered ?w @ buffer ?w @ arrivals parse evs ?w"
    by (rule Cons.IH[OF wf_dispatch[OF Cons.prems(1)] rest])
  also have "\<dots> = (delivered w @ buffer w @ arrivals parse [e] w) @ arrivals parse evs ?w"
    using partition_step[OF Cons.prems(1) r, of parse] by simp
  finally show ?case by simp
qed

lemma detached_cong:
  "calls w' = calls w \<Longrightarrow> batchRef w' = batchRef w \<Longrightarrow> phase w' = phase w
   \<Longrightarrow> arrays w' = arrays w \<Longrightarrow> detached w' = detached w"
  by (simp add: detached_def)

lemma detached_step:
  assumes "wf w" "detached w" "returns e"
  shows "detached (snd (dispatch parse e w))"
proof (cases e)
  case (Render u ob iv)
  show ?thesis
  proof (cases "phase w = Fresh")
    case True
    then show ?thesis using Render assms(2) by (simp add: detached_def)
  next
    case False
    then have "detached (useBatchedMessages u ob iv w) = detached w"
      by (intro detached_cong) simp_all
    then show ?thesis using Render assms(2) by simp
  qed
next
  case Unmount
  then show ?thesis using assms(2) by (auto simp: detached_def unmount_def)
next
  case (Opened h)
  have "detached (ws_open h w) = detached w" by (intro detached_cong) simp_all
  then show ?thesis using Opened assms(2) by simp
next
  case (Closed h)
  have "detached (ws_close h w) = detached w" by (intro detached_cong) simp_all
  then show ?thesis using Closed assms(2) by simp
next
  case (Frame h d)
  show ?thesis using Frame assms(2)
    by (auto simp: detached_def frame_state)
next
  case (Tick t out)
  with assms(3) have out: "out = Returns" by (cases out) simp_all
  show ?thesis
  proof (cases "find (\<lambda>x. handle x = t) (timers w)")
    case None
    then show ?thesis using Tick assms(2) by simp
  next
    case (Some x)
    from live_timer_mounted[OF assms(1) Some] have nf: "phase w \<noteq> Fresh" by simp
    then have v: "batchRef w < length (arrays w)" by (rule wfD(5)[OF assms(1)])
    show ?thesis
    proof (cases "buffer w = []")
      case True
      then show ?thesis using Tick Some assms(2) by (simp add: flush_empty[OF v])
    next
      case False
      then show ?thesis using Tick Some out assms(2) v nf
        by (auto simp: flush_returns[OF v] detached_def sorted_wrt_append nth_append buffer_def)
    qed
  qed
qed

lemma detached_run:
  assumes "wf w" "detached w" "\<forall>e \<in> set evs. returns e"
  shows "detached (run parse evs w)"
  using assms
proof (induction evs arbitrary: w)
  case Nil
  then show ?case by simp
next
  case (Cons e evs)
  from Cons.prems have r: "returns e" and rest: "\<forall>e \<in> set evs. returns e" by simp_all
  show ?case
    using Cons.IH[OF wf_dispatch[OF Cons.prems(1)] detached_step[OF Cons.prems(1,2) r] rest]
    by simp
qed

lemma nonempty_step:
  assumes "\<forall>c \<in> set (calls w). contents c \<noteq> []"
  shows "\<forall>c \<in> set (calls (snd (dispatch parse e w))). contents c \<noteq> []"
proof (cases e)
  case (Tick t out)
  show ?thesis
  proof (cases "find (\<lambda>x. handle x = t) (timers w)")
    case None
    then show ?thesis using Tick assms by simp
  next
    case (Some x)
    then show ?thesis using Tick assms
      by (cases out) (auto simp: flush_def Let_def)
  qed
qed (use assms in simp_all)

lemma nonempty_run:
  assumes "\<forall>c \<in> set (calls w). contents c \<noteq> []"
  shows "\<forall>c \<in> set (calls (run parse evs w)). contents c \<noteq> []"
  using assms
proof (induction evs arbitrary: w)
  case Nil
  then show ?case by simp
next
  case (Cons e evs)
  show ?case using Cons.IH[OF nonempty_step[OF Cons.prems] ] by simp
qed

section \<open>Ticks, frames and renders in reachable states\<close>

lemma run_append: "run parse (es @ fs) w = run parse fs (run parse es w)"
  by (induction es arbitrary: w) simp_all

subsection \<open>Ticks in reachable states\<close>

lemma live_valid:
  assumes "wf w" "find P (timers w) = Some x"
  shows "batchRef w < length (arrays w)"
proof -
  from live_timer_mounted[OF assms] have "phase w \<noteq> Fresh" by simp
  then show ?thesis by (rule wfD(5)[OF assms(1)])
qed

lemma tick_returns:
  assumes "wf w" "find (\<lambda>x. handle x = t) (timers w) = Some x" "buffer w \<noteq> []"
  shows "dispatch parse (Tick t Returns) w =
    (None, w\<lparr>calls := calls w @
                 [\<lparr>consumer = onBatchMessage x, array = batchRef w, contents = buffer w\<rparr>],
             arrays := arrays w @ [ [] ], batchRef := length (arrays w)\<rparr>)"
  using assms(2) by (simp add: flush_returns[OF live_valid[OF assms(1,2)] assms(3)])

lemma tick_throws:
  assumes "wf w" "find (\<lambda>x. handle x = t) (timers w) = Some x" "buffer w \<noteq> []"
  shows "dispatch parse (Tick t Throws) w =
    (Some ConsumerError,
     w\<lparr>calls := calls w @
           [\<lparr>consumer = onBatchMessage x, array = batchRef w, contents = buffer w\<rparr>]\<rparr>)"
  using assms(2) by (simp add: flush_throws[OF live_valid[OF assms(1,2)] assms(3)])

lemma tick_empty:
  assumes "wf w" "buffer w = []"
  shows "dispatch parse (Tick t out) w = (None, w)"
proof (cases "phase w = Mounted")
  case False
  then show ?thesis by (rule tick_dead[OF assms(1)])
next
  case True
  then have "batchRef w < length (arrays w)" using wfD(5)[OF assms(1)] by simp
  then show ?thesis using assms(2) by (simp add: flush_empty split: option.splits)
qed

subsection \<open>Events other than ticks\<close>

lemma quiet_returns: "\<not> tick e \<Longrightarrow> returns e"
  by (cases e) simp_all

lemma quiet_step:
  assumes "\<not> tick e"
  shows "calls (snd (dispatch parse e w)) = calls w"
    and "phase w \<noteq> Fresh \<Longrightarrow> batchRef (snd (dispatch parse e w)) = batchRef w"
    and "phase w \<noteq> Fresh \<Longrightarrow> phase (snd (dispatch parse e w)) \<noteq> Fresh"
  using assms by (cases e; simp add: unmount_def)+

lemma quiet_run:
  assumes "wf w" "\<forall>e \<in> set fs. \<not> tick e"
  shows "calls (run parse fs w) = calls w \<and>
         buffer (run parse fs w) = buffer w @ arrivals parse fs w \<and>
         (phase w \<noteq> Fresh \<longrightarrow> batchRef (run parse fs w) = batchRef w)"
  using assms
proof (induction fs arbitrary: w)
  case Nil
  then show ?case by simp
next
  case (Cons e fs)
  let ?w = "snd (dispatch parse e w)"
  from Cons.prems have q: "\<not> tick e" and rest: "\<forall>e \<in> set fs. \<not> tick e" by simp_all
  have wf': "wf ?w" by (rule wf_dispatch[OF Cons.prems(1)])
  have c: "calls ?w = calls w" by (rule quiet_step(1)[OF q])
  have "delivered ?w @ buffer ?w = delivered w @ buffer w @ arrivals parse [e] w"
    by (rule partition_step[OF Cons.prems(1) quiet_returns[OF q] ])
  then have b: "buffer ?w = buffer w @ arrivals parse [e] w" by (simp add: delivered_def c)
  have p: "phase w \<noteq> Fresh \<longrightarrow> batchRef ?w = batchRef w \<and> phase ?w \<noteq> Fresh"
    using quiet_step(2,3)[OF q, of w parse] by simp
  from Cons.IH[OF wf' rest]
  have "calls (run parse fs ?w) = calls ?w"
    and "buffer (run parse fs ?w) = buffer ?w @ arrivals parse fs ?w"
    and "phase ?w \<noteq> Fresh \<longrightarrow> batchRef (run parse fs ?w) = batchRef ?w"
    by simp_all
  then show ?case using c b p by simp
qed

lemma after_flush_empty:
  assumes "wf v" "find (\<lambda>x. handle x = t) (timers v) \<noteq> None"
  shows "buffer (snd (dispatch parse (Tick t Returns) v)) = []"
proof -
  from assms(2) obtain x where l: "find (\<lambda>x. handle x = t) (timers v) = Some x" by auto
  show ?thesis
  proof (cases "buffer v = []")
    case True
    then show ?thesis by (simp only: tick_empty[OF assms(1) True] snd_conv)
  next
    case False
    show ?thesis
      by (simp only: tick_returns[OF assms(1) l False] snd_conv) (simp add: buffer_def)
  qed
qed

lemma throw_then_tick:
  assumes "wf v" "find (\<lambda>x. handle x = t) (timers v) = Some x" "buffer v \<noteq> []"
    and "v' = snd (dispatch parse (Tick t Throws) v)"
    and "\<forall>e \<in> set fs. \<not> tick e"
    and "find (\<lambda>x. handle x = t') (timers (run parse fs v')) = Some x'"
  shows "buffer v' = buffer v \<and> batchRef v' = batchRef v \<and>
         calls v' = calls v @
           [\<lparr>consumer = onBatchMessage x, array = batchRef v, contents = buffer v\<rparr>] \<and>
         calls (snd (dispatch parse (Tick t' out) (run parse fs v'))) =
           calls v' @ [\<lparr>consumer = onBatchMessage x', array = batchRef v,
                        contents = buffer v @ arrivals parse fs v'\<rparr>]"
proof -
  have v': "v' = v\<lparr>calls := calls v @
           [\<lparr>consumer = onBatchMessage x, array = batchRef v, contents = buffer v\<rparr>]\<rparr>"
    unfolding assms(4) by (simp only: tick_throws[OF assms(1,2,3)] snd_conv)
  have f: "buffer v' = buffer v" "batchRef v' = batchRef v" "phase v' = phase v"
    "calls v' = calls v @
           [\<lparr>consumer = onBatchMessage x, array = batchRef v, contents = buffer v\<rparr>]"
    by (simp_all add: v' buffer_def)
  have wf': "wf v'" unfolding assms(4) by (rule wf_dispatch[OF assms(1)])
  from live_timer_mounted[OF assms(1,2)] have nf: "phase v' \<noteq> Fresh" by (simp add: f)
  let ?v1 = "run parse fs v'"
  have wf1: "wf ?v1" by (rule wf_run[OF wf'])
  from quiet_run[OF wf' assms(5), of parse] nf
  have c1: "calls ?v1 = calls v'" and b1: "buffer ?v1 = buffer v @ arrivals parse fs v'"
    and r1: "batchRef ?v1 = batchRef v"
    by (simp_all add: f)
  have ne1: "buffer ?v1 \<noteq> []" using assms(3) by (simp add: b1)
  have "calls (snd (dispatch parse (Tick t' out) ?v1)) =
        calls ?v1 @ [\<lparr>consumer = onBatchMessage x', array = batchRef ?v1, contents = buffer ?v1\<rparr>]"
    by (cases out)
      (simp_all only: tick_returns[OF wf1 assms(6) ne1] tick_throws[OF wf1 assms(6) ne1], simp_all)
  then have "calls (snd (dispatch parse (Tick t' out) ?v1)) =
           calls v' @ [\<lparr>consumer = onBatchMessage x', array = batchRef v,
                        contents = buffer v @ arrivals parse fs v'\<rparr>]"
    by (simp only: c1 b1 r1)
  then show ?thesis using f by simp
qed

subsection \<open>Malformed frames\<close>

lemma arrivals_append:
  "arrivals parse (es @ fs) w = arrivals parse es w @ arrivals parse fs (run parse es w)"
  by (induction es arbitrary: w) simp_all

lemma malformed_step:
  assumes "parse d = None"
  shows "dispatch parse (Frame h d) w =
    (if h < length (sockets w) \<and> readyState (sockets w ! h) = OPEN then Some SyntaxError else None, w)"
  using assms by (simp add: ws_message_def)

subsection \<open>Renders of a mounted component\<close>

lemma interval_commit_timers:
  assumes "timers_ok w" "timer_effect w = Some ((p, ob), t)"
  shows "timers (interval_commit p' ob' w) =
           (if p' = p \<and> ob' = ob then timers w
            else [\<lparr>handle = next_handle w, period = p', onBatchMessage = ob'\<rparr>])"
    and "timer_effect (interval_commit p' ob' w) =
           (if p' = p \<and> ob' = ob then timer_effect w else Some ((p', ob'), next_handle w))"
  using assms
  by (auto simp: timers_ok_def interval_commit_def interval_effect_def interval_cleanup_def
      setInterval_def clearInterval_def)


lemma rerender_timers:
  assumes "wf w" "timer_effect w = Some ((p, ob), t)"
  shows "timers (useBatchedMessages u ob' iv w) =
           (if batchInterval iv = p \<and> ob' = ob then timers w
            else [\<lparr>handle = next_handle w, period = batchInterval iv, onBatchMessage = ob'\<rparr>])"
    and "timer_effect (useBatchedMessages u ob' iv w) =
           (if batchInterval iv = p \<and> ob' = ob then timer_effect w
            else Some ((batchInterval iv, ob'), next_handle w))"
proof -
  from wfD(6)[OF assms(1)] assms(2) have m: "phase w = Mounted" by simp
  define w2 where "w2 = ws_commit u (renders w) (w\<lparr>renders := Suc (renders w)\<rparr>)"
  have eq: "useBatchedMessages u ob' iv w = interval_commit (batchInterval iv) ob' w2"
    using m by (simp add: render_unfold w2_def)
  have f: "timers w2 = timers w" "timer_effect w2 = timer_effect w" "next_handle w2 = next_handle w"
    by (simp_all add: w2_def)
  have "timers_ok w2 = timers_ok w" by (rule timers_ok_cong) (simp_all add: f)
  then have ok: "timers_ok w2" using wfD(1)[OF assms(1)] by simp
  have te: "timer_effect w2 = Some ((p, ob), t)" by (simp add: f assms(2))
  show "timers (useBatchedMessages u ob' iv w) =
           (if batchInterval iv = p \<and> ob' = ob then timers w
            else [\<lparr>handle = next_handle w, period = batchInterval iv, onBatchMessage = ob'\<rparr>])"
    unfolding eq interval_commit_timers(1)[OF ok te] by (simp add: f)
  show "timer_effect (useBatchedMessages u ob' iv w) =
           (if batchInterval iv = p \<and> ob' = ob then timer_effect w
            else Some ((batchInterval iv, ob'), next_handle w))"
    unfolding eq interval_commit_timers(2)[OF ok te] by (simp add: f)
qed


lemma next_tick:
  assumes "wf w" "find (\<lambda>x. handle x = t) (timers w) = Some x"
    and "\<forall>e \<in> set fs. socket_event e"
    and "buffer w @ arrivals parse fs w \<noteq> []"
  shows "calls (run parse (fs @ [Tick t out]) w) =
           calls w @ [\<lparr>consumer = onBatchMessage x, array = batchRef w,
                       contents = buffer w @ arrivals parse fs w\<rparr>]"
proof -
  let ?w1 = "run parse fs w"
  have wf1: "wf ?w1" by (rule wf_run[OF assms(1)])
  from socket_events_run[OF assms(3), of parse w]
  have c1: "calls ?w1 = calls w" and br1: "batchRef ?w1 = batchRef w"
    and t1: "timers ?w1 = timers w"
    by simp_all
  have b1: "buffer ?w1 = buffer w @ arrivals parse fs w"
    by (rule socket_events_buffer[OF assms(1,3)])
  have live1: "find (\<lambda>x. handle x = t) (timers ?w1) = Some x" by (simp add: t1 assms(2))
  have ne1: "buffer ?w1 \<noteq> []" using assms(4) by (simp add: b1)
  have "calls (snd (dispatch parse (Tick t out) ?w1)) =
        calls ?w1 @ [\<lparr>consumer = onBatchMessage x, array = batchRef ?w1, contents = buffer ?w1\<rparr>]"
    by (cases out) (simp_all only: tick_returns[OF wf1 live1 ne1] tick_throws[OF wf1 live1 ne1], simp_all)
  then show ?thesis by (simp add: run_append c1 br1 b1)
qed

subsection \<open>The adapter on its own\<close>

text \<open>The cleanup of the interval effect and the body of the socket effect commute.\<close>

lemma commit_order:
  "interval_cleanup (ws_effect u cb w) = ws_effect u cb (interval_cleanup w)"
proof (cases "timer_effect w")
  case None
  then show ?thesis by (simp add: interval_cleanup_def ws_effect_def)
next
  case (Some e)
  then show ?thesis
    by (cases e) (simp add: interval_cleanup_def clearInterval_def ws_effect_def)
qed

lemma activated_ok: "activated s \<Longrightarrow> sockets_ok s"
proof (induction rule: activated.induct)
  case start
  show ?case by (simp add: sockets_ok_def adapter_init_def)
next
  case (render s u cb)
  then show ?case by (simp add: useWebSocket_def sockets_ok_commit)
next
  case (opened s h)
  then show ?case by (simp add: sockets_ok_open)
next
  case (closed s h)
  then show ?case by (simp add: sockets_ok_close)
qed

section \<open>Evaluated runs\<close>

lemmas run_defs = init_def useBatchedMessages_def useWebSocket_def ws_commit_def ws_effect_def
  ws_cleanup_def ws_unmount_def interval_commit_def interval_effect_def interval_cleanup_def
  setInterval_def clearInterval_def unmount_def ws_open_def ws_close_def ws_message_def
  push_message_def flush_def close_def batchInterval_def digit_parse_def Let_def

lemma session_live: "run digit_parse session init = live"
  by (simp add: session_def live_def run_defs)

lemma live_frames:
  "run digit_parse [Frame 0 ''1'', Tick 0 Returns] live =
     live\<lparr>arrays := [ [1], [] ], batchRef := 1,
          calls := [\<lparr>consumer = 7, array = 0, contents = [1]\<rparr>]\<rparr>"
  by (simp add: live_def run_defs)

lemma scenario_C:
  "run digit_parse (session @ [Frame 0 ''1''] @ [Frame 0 ''2'', Tick 0 Returns]) init =
     live\<lparr>arrays := [ [1, 2], [] ], batchRef := 1,
          calls := [\<lparr>consumer = 7, array = 0, contents = [1, 2]\<rparr>]\<rparr>"
  by (simp only: run_append session_live) (simp add: live_def run_defs)

lemma reconfigured:
  "useBatchedMessages ''wss://quotes.example.com'' 8 (Some 250) (live\<lparr>arrays := [ [1] ]\<rparr>) =
     live\<lparr>arrays := [ [1] ],
          sockets := [\<lparr>url = ''wss://stocks.example.com'', readyState = CLOSING, onMessage = 0\<rparr>,
                      \<lparr>url = ''wss://quotes.example.com'', readyState = CONNECTING, onMessage = 1\<rparr>],
          socketRef := Some 1, ws_deps := Some (''wss://quotes.example.com'', 1),
          timers := [\<lparr>handle = 1, period = 250, onBatchMessage = 8\<rparr>], next_handle := 2,
          timer_effect := Some ((250, 8), 1), renders := 2\<rparr>"
  by (simp add: live_def run_defs)

lemma one_buffered: "run digit_parse (session @ [Frame 0 ''1'']) init = live\<lparr>arrays := [ [1] ]\<rparr>"
  by (simp only: run_append session_live) (simp add: live_def run_defs)

lemma live_timer: "find (\<lambda>x. handle x = 0) (timers (live\<lparr>arrays := a\<rparr>)) =
    Some \<lparr>handle = 0, period = 100, onBatchMessage = 7\<rparr>"
  by (simp add: live_def)

lemma redelivered:
  "run digit_parse (session @ [Frame 0 ''1'', Tick 0 Throws, Tick 0 Returns]) init =
     live\<lparr>arrays := [ [1], [] ], batchRef := 1,
          calls := [\<lparr>consumer = 7, array = 0, contents = [1]\<rparr>,
                    \<lparr>consumer = 7, array = 0, contents = [1]\<rparr>]\<rparr>"
  by (simp only: run_append session_live) (simp add: live_def run_defs)

lemma session_returns: "\<forall>e \<in> set session. returns e"
  by (simp add: session_def)

lemma rendered_interval:
  "run digit_parse [Frame 0 ''2'', Render ''wss://quotes.example.com'' 7 (Some 250), Opened 1,
                    Frame 1 ''3'']
     (live\<lparr>arrays := [ [1], [] ], batchRef := 1,
           calls := [\<lparr>consumer = 7, array = 0, contents = [1]\<rparr>]\<rparr>) =
   live\<lparr>arrays := [ [1], [2, 3] ], batchRef := 1,
        calls := [\<lparr>consumer = 7, array = 0, contents = [1]\<rparr>],
        sockets := [\<lparr>url = ''wss://stocks.example.com'', readyState = CLOSING, onMessage = 0\<rparr>,
                    \<lparr>url = ''wss://quotes.example.com'', readyState = OPEN, onMessage = 1\<rparr>],
        console := [''Websocket connected!'', ''Websocket connected!''],
        socketRef := Some 1, ws_deps := Some (''wss://quotes.example.com'', 1),
        timers := [\<lparr>handle = 1, period = 250, onBatchMessage = 7\<rparr>], next_handle := 2,
        timer_effect := Some ((250, 7), 1), renders := 2\<rparr>"
  by (simp add: live_def run_defs)

section \<open>The claims\<close>

text \<open>
  C5: \<^verbatim>\<open>onBatchMessage\<close> is only ever called with a non-empty array. In every
  reachable state each recorded call held at least one message, and a tick of any timer
  at an empty Buffer changes nothing: no call, no change to the timers, no exception.
\<close>

theorem onBatch_never_empty:
  assumes "w = run parse evs init"
  shows "(\<forall>c \<in> set (calls w). contents c \<noteq> []) \<and>
         (buffer w = [] \<longrightarrow> dispatch parse (Tick t out) w = (None, w))"
proof
  have "\<forall>c \<in> set (calls (init :: 'a coalescer)). contents c \<noteq> []" by (simp add: init_def)
  then show "\<forall>c \<in> set (calls w). contents c \<noteq> []"
    unfolding assms by (rule nonempty_run)
next
  have wf: "wf w" unfolding assms by (rule wf_reachable)
  show "buffer w = [] \<longrightarrow> dispatch parse (Tick t out) w = (None, w)"
  proof
    assume e: "buffer w = []"
    show "dispatch parse (Tick t out) w = (None, w)"
    proof (cases "phase w = Mounted")
      case False
      then show ?thesis by (rule tick_dead[OF wf])
    next
      case True
      then have "batchRef w < length (arrays w)" using wfD(5)[OF wf] by simp
      then show ?thesis using e
        by (simp add: flush_empty split: option.splits)
    qed
  qed
qed

theorem onBatch_never_empty_witness:
  "map contents (calls (run digit_parse (session @ [Frame 0 ''1'', Tick 0 Returns]) init)) = [ [1] ] \<and>
   contents (hd (calls (run digit_parse (session @ [Frame 0 ''1'', Tick 0 Returns]) init))) \<noteq> [] \<and>
   buffer (run digit_parse (session @ [Frame 0 ''1'', Tick 0 Returns]) init) = [] \<and>
   dispatch digit_parse (Tick 0 Returns) (run digit_parse (session @ [Frame 0 ''1'', Tick 0 Returns]) init)
     = (None, run digit_parse (session @ [Frame 0 ''1'', Tick 0 Returns]) init)"
proof -
  let ?w = "run digit_parse (session @ [Frame 0 ''1'', Tick 0 Returns]) init"
  have w: "?w = live\<lparr>arrays := [ [1], [] ], batchRef := 1,
          calls := [\<lparr>consumer = 7, array = 0, contents = [1]\<rparr>]\<rparr>"
    by (simp only: run_append session_live live_frames)
  have b: "buffer ?w = []" by (simp add: w buffer_def live_def)
  have c: "hd (calls ?w) \<in> set (calls ?w)" by (simp add: w)
  from onBatch_never_empty[of ?w digit_parse "session @ [Frame 0 ''1'', Tick 0 Returns]" 0 Returns]
  have "(\<forall>c \<in> set (calls ?w). contents c \<noteq> []) \<and> dispatch digit_parse (Tick 0 Returns) ?w = (None, ?w)"
    using b by simp
  then show ?thesis using b c by (simp add: w)
qed

text \<open>
  C1, as the code has it: the interval callback hands the live Buffer array itself to
  \<^verbatim>\<open>onBatchMessage\<close> and replaces it by a fresh empty array only after that call
  has returned. When the call returns, the flush records one call holding the Buffer's
  contents, the Buffer becomes a new array that was never allocated before and is empty,
  the array handed over keeps its contents, and a message appended afterwards lands in
  the new Buffer only. When the call throws, the exception leaves the callback and the
  Buffer stays the array that was handed over.
\<close>

theorem flush_delivers_then_replaces:
  assumes "w = run parse evs init"
    and "find (\<lambda>x. handle x = t) (timers w) = Some x"
    and "buffer w \<noteq> []"
    and "w' = snd (dispatch parse (Tick t Returns) w)"
    and "w'' = snd (dispatch parse (Frame h d) w')"
  shows "dispatch parse (Tick t Throws) w =
           (Some ConsumerError,
            w\<lparr>calls := calls w @
               [\<lparr>consumer = onBatchMessage x, array = batchRef w, contents = buffer w\<rparr>]\<rparr>) \<and>
         fst (dispatch parse (Tick t Returns) w) = None \<and>
         calls w' = calls w @
               [\<lparr>consumer = onBatchMessage x, array = batchRef w, contents = buffer w\<rparr>] \<and>
         batchRef w' = length (arrays w) \<and> buffer w' = [] \<and>
         arrays w' ! batchRef w = buffer w \<and>
         buffer w'' = decoded parse h d w' \<and> arrays w'' ! batchRef w = buffer w \<and>
         calls w'' = calls w'"
proof -
  have wf: "wf w" unfolding assms(1) by (rule wf_reachable)
  have v: "batchRef w < length (arrays w)" by (rule live_valid[OF wf assms(2)])
  have r: "dispatch parse (Tick t Returns) w =
    (None, w\<lparr>calls := calls w @
                 [\<lparr>consumer = onBatchMessage x, array = batchRef w, contents = buffer w\<rparr>],
             arrays := arrays w @ [ [] ], batchRef := length (arrays w)\<rparr>)"
    by (rule tick_returns[OF wf assms(2,3)])
  have w': "w' = w\<lparr>calls := calls w @
                 [\<lparr>consumer = onBatchMessage x, array = batchRef w, contents = buffer w\<rparr>],
             arrays := arrays w @ [ [] ], batchRef := length (arrays w)\<rparr>"
    unfolding assms(4) r by simp
  have b': "buffer w' = []" by (simp add: w' buffer_def)
  have a': "arrays w' ! batchRef w = buffer w" using v by (simp add: w' buffer_def nth_append)
  have v': "batchRef w' < length (arrays w')" by (simp add: w')
  have ne: "batchRef w' \<noteq> batchRef w" using v by (simp add: w')
  have b'': "buffer w'' = decoded parse h d w'"
    unfolding assms(5) using buffer_frame[OF v', of parse h d] b' by simp
  have a'': "arrays w'' ! batchRef w = buffer w"
    unfolding assms(5) using a' ne by (simp add: frame_state)
  have c'': "calls w'' = calls w'" unfolding assms(5) by simp
  show ?thesis
    using tick_throws[OF wf assms(2,3), of parse] r b' a' b'' a'' c''
    by (simp add: w')
qed

theorem flush_delivers_then_replaces_witness:
  "find (\<lambda>x. handle x = 0) (timers (run digit_parse (session @ [Frame 0 ''1'']) init)) =
     Some \<lparr>handle = 0, period = 100, onBatchMessage = 7\<rparr> \<and>
   buffer (run digit_parse (session @ [Frame 0 ''1'']) init) = [1] \<and>
   calls (snd (dispatch digit_parse (Tick 0 Returns)
            (run digit_parse (session @ [Frame 0 ''1'']) init))) =
     [\<lparr>consumer = 7, array = 0, contents = [1]\<rparr>] \<and>
   batchRef (snd (dispatch digit_parse (Tick 0 Returns)
            (run digit_parse (session @ [Frame 0 ''1'']) init))) = 1 \<and>
   buffer (snd (dispatch digit_parse (Frame 0 ''2'') (snd (dispatch digit_parse (Tick 0 Returns)
            (run digit_parse (session @ [Frame 0 ''1'']) init))))) = [2]"
proof -
  let ?w = "run digit_parse (session @ [Frame 0 ''1'']) init"
  let ?w' = "snd (dispatch digit_parse (Tick 0 Returns) ?w)"
  have h1: "find (\<lambda>x. handle x = 0) (timers ?w) = Some \<lparr>handle = 0, period = 100, onBatchMessage = 7\<rparr>"
    by (simp only: one_buffered live_timer)
  have b: "buffer ?w = [1]" by (simp add: one_buffered buffer_def live_def)
  then have h2: "buffer ?w \<noteq> []" by simp
  have d: "decoded digit_parse 0 ''2'' ?w' = [2]"
    by (simp only: one_buffered) (simp add: live_def run_defs decoded_def)
  have a: "length (arrays ?w) = 1" "calls ?w = []" "batchRef ?w = 0"
    by (simp_all add: one_buffered live_def)
  from flush_delivers_then_replaces[OF refl h1 h2 refl refl, of 0 "''2''"]
  show ?thesis using h1 b d a by simp
qed

text \<open>
  The claim C1 as stated fails: after a flush whose \<^verbatim>\<open>onBatchMessage\<close> call throws,
  no fresh Buffer has been installed. The Buffer is still array 0, the array that was
  handed to the consumer, and it still holds the message.
\<close>

theorem flush_swap_counterexample:
  "batchRef (run digit_parse (session @ [Frame 0 ''1'', Tick 0 Throws]) init) = 0 \<and>
   buffer (run digit_parse (session @ [Frame 0 ''1'', Tick 0 Throws]) init) = [1] \<and>
   calls (run digit_parse (session @ [Frame 0 ''1'', Tick 0 Throws]) init) =
     [\<lparr>consumer = 7, array = 0, contents = [1]\<rparr>]"
proof -
  have "run digit_parse (session @ [Frame 0 ''1'', Tick 0 Throws]) init =
        live\<lparr>arrays := [ [1] ], calls := [\<lparr>consumer = 7, array = 0, contents = [1]\<rparr>]\<rparr>"
    by (simp only: run_append session_live) (simp add: live_def run_defs)
  then show ?thesis by (simp add: buffer_def live_def)
qed

text \<open>
  C2, as the code has it: in a run in which no \<^verbatim>\<open>onBatchMessage\<close> call throws, the
  batches handed over so far, one after the other and followed by the Buffer, are
  exactly the received messages in arrival order; every batch was handed over in an
  array of its own, none of them is the live Buffer, and each array still holds what was
  handed over. Messages still in the Buffer are in no batch. In any reachable state, a
  tick whose \<^verbatim>\<open>onBatchMessage\<close> call throws keeps the Buffer: the array and its
  messages stay, and the next tick of the timer then live, whatever renders and socket
  events come in between, hands the same array over again, holding the same messages
  followed by those received since.
\<close>

theorem batches_partition_arrivals:
  assumes "\<forall>e \<in> set evs. returns e"
    and "w = run parse evs init"
  shows "delivered w @ buffer w = arrivals parse evs init \<and>
         distinct (map array (calls w)) \<and>
         (\<forall>c \<in> set (calls w). array c \<noteq> batchRef w \<and> arrays w ! array c = contents c) \<and>
         (v = run parse evs' init \<and> find (\<lambda>x. handle x = t) (timers v) = Some x \<and>
          buffer v \<noteq> [] \<and> v' = snd (dispatch parse (Tick t Throws) v) \<and>
          (\<forall>e \<in> set fs. \<not> tick e) \<and>
          find (\<lambda>x. handle x = t') (timers (run parse fs v')) = Some x' \<longrightarrow>
            buffer v' = buffer v \<and> batchRef v' = batchRef v \<and>
            calls v' = calls v @
              [\<lparr>consumer = onBatchMessage x, array = batchRef v, contents = buffer v\<rparr>] \<and>
            calls (snd (dispatch parse (Tick t' out) (run parse fs v'))) =
              calls v' @ [\<lparr>consumer = onBatchMessage x', array = batchRef v,
                           contents = buffer v @ arrivals parse fs v'\<rparr>])"
proof -
  have "delivered (run parse evs init) @ buffer (run parse evs init) =
        delivered init @ buffer init @ arrivals parse evs init"
    by (rule partition_run[OF wf_init assms(1)])
  then have p: "delivered w @ buffer w = arrivals parse evs init"
    by (simp add: assms(2) delivered_def buffer_def init_def)
  have "detached (init :: 'a coalescer)" by (simp add: detached_def init_def)
  then have d: "detached w" unfolding assms(2) by (rule detached_run[OF wf_init _ assms(1)])
  then have "sorted_wrt (<) (map array (calls w))" by (simp add: detached_def)
  then have di: "distinct (map array (calls w))" by (simp add: strict_sorted_iff)
  have st: "\<forall>c \<in> set (calls w). array c \<noteq> batchRef w \<and> arrays w ! array c = contents c"
    using d by (auto simp: detached_def)
  have th: "buffer v' = buffer v \<and> batchRef v' = batchRef v \<and>
            calls v' = calls v @
              [\<lparr>consumer = onBatchMessage x, array = batchRef v, contents = buffer v\<rparr>] \<and>
            calls (snd (dispatch parse (Tick t' out) (run parse fs v'))) =
              calls v' @ [\<lparr>consumer = onBatchMessage x', array = batchRef v,
                           contents = buffer v @ arrivals parse fs v'\<rparr>]"
    if "v = run parse evs' init" "find (\<lambda>x. handle x = t) (timers v) = Some x"
      "buffer v \<noteq> []" "v' = snd (dispatch parse (Tick t Throws) v)"
      "\<forall>e \<in> set fs. \<not> tick e"
      "find (\<lambda>x. handle x = t') (timers (run parse fs v')) = Some x'"
  proof -
    have wf: "wf v" unfolding that(1) by (rule wf_reachable)
    show ?thesis by (rule throw_then_tick[OF wf that(2,3,4,5,6)])
  qed
  show ?thesis using p di st th by blast
qed

theorem batches_partition_arrivals_witness:
  "delivered (run digit_parse (session @ [Frame 0 ''1'', Tick 0 Returns, Frame 0 ''2'']) init) = [1] \<and>
   buffer (run digit_parse (session @ [Frame 0 ''1'', Tick 0 Returns, Frame 0 ''2'']) init) = [2] \<and>
   arrivals digit_parse (session @ [Frame 0 ''1'', Tick 0 Returns, Frame 0 ''2'']) init = [1, 2] \<and>
   map array (calls (run digit_parse (session @ [Frame 0 ''1'', Tick 0 Returns, Frame 0 ''2'']) init)) = [0] \<and>
   batchRef (run digit_parse (session @ [Frame 0 ''1'', Tick 0 Returns, Frame 0 ''2'']) init) = 1 \<and>
   find (\<lambda>x. handle x = 0) (timers (run digit_parse (session @ [Frame 0 ''1'']) init)) =
     Some \<lparr>handle = 0, period = 100, onBatchMessage = 7\<rparr> \<and>
   buffer (run digit_parse (session @ [Frame 0 ''1'']) init) = [1] \<and>
   find (\<lambda>x. handle x = 0)
     (timers (run digit_parse [Frame 0 ''2'']
        (snd (dispatch digit_parse (Tick 0 Throws) (run digit_parse (session @ [Frame 0 ''1'']) init))))) =
     Some \<lparr>handle = 0, period = 100, onBatchMessage = 7\<rparr> \<and>
   buffer (snd (dispatch digit_parse (Tick 0 Throws)
      (run digit_parse (session @ [Frame 0 ''1'']) init))) = [1] \<and>
   calls (snd (dispatch digit_parse (Tick 0 Returns) (run digit_parse [Frame 0 ''2'']
      (snd (dispatch digit_parse (Tick 0 Throws) (run digit_parse (session @ [Frame 0 ''1'']) init)))))) =
     [\<lparr>consumer = 7, array = 0, contents = [1]\<rparr>, \<lparr>consumer = 7, array = 0, contents = [1, 2]\<rparr>]"
proof -
  let ?evs = "session @ [Frame 0 ''1'', Tick 0 Returns, Frame 0 ''2'']"
  let ?v = "run digit_parse (session @ [Frame 0 ''1'']) init"
  let ?v' = "snd (dispatch digit_parse (Tick 0 Throws) ?v)"
  let ?x = "\<lparr>handle = 0, period = 100, onBatchMessage = 7\<rparr>"
  have h: "\<forall>e \<in> set ?evs. returns e" using session_returns by simp
  have w: "run digit_parse ?evs init =
     live\<lparr>arrays := [ [1], [2] ], batchRef := 1,
          calls := [\<lparr>consumer = 7, array = 0, contents = [1]\<rparr>]\<rparr>"
    by (simp only: run_append session_live) (simp add: live_def run_defs)
  have d: "delivered (run digit_parse ?evs init) = [1]" "buffer (run digit_parse ?evs init) = [2]"
    "map array (calls (run digit_parse ?evs init)) = [0]" "batchRef (run digit_parse ?evs init) = 1"
    by (simp_all add: w delivered_def buffer_def live_def)
  have g1: "find (\<lambda>x. handle x = 0) (timers ?v) = Some ?x"
    by (simp only: one_buffered live_timer)
  have b: "buffer ?v = [1]" by (simp add: one_buffered buffer_def live_def)
  then have g2: "buffer ?v \<noteq> []" by simp
  have g3: "\<forall>e \<in> set [Frame 0 ''2'']. \<not> tick e" by simp
  have v': "?v' = live\<lparr>arrays := [ [1] ], calls := [\<lparr>consumer = 7, array = 0, contents = [1]\<rparr>]\<rparr>"
    by (simp only: one_buffered) (simp add: live_def run_defs)
  have g4: "find (\<lambda>x. handle x = 0) (timers (run digit_parse [Frame 0 ''2''] ?v')) = Some ?x"
    by (simp only: v') (simp add: live_def run_defs)
  have a: "arrivals digit_parse [Frame 0 ''2''] ?v' = [2]"
    by (simp only: v') (simp add: live_def run_defs decoded_def)
  have c: "calls ?v = []" "batchRef ?v = 0" by (simp_all add: one_buffered live_def)
  note t = batches_partition_arrivals[OF h refl, of digit_parse ?v "session @ [Frame 0 ''1'']" 0 ?x
      ?v' "[Frame 0 ''2'']" 0 ?x Returns]
  from t have p: "delivered (run digit_parse ?evs init) @ buffer (run digit_parse ?evs init) =
        arrivals digit_parse ?evs init"
    by blast
  have cv: "calls ?v' = [\<lparr>consumer = 7, array = 0, contents = [1]\<rparr>]"
    by (simp only: v') simp
  from t g1 g2 g3 g4 have r: "buffer ?v' = buffer ?v \<and>
     calls (snd (dispatch digit_parse (Tick 0 Returns) (run digit_parse [Frame 0 ''2''] ?v'))) =
       calls ?v' @ [\<lparr>consumer = onBatchMessage ?x, array = batchRef ?v,
                    contents = buffer ?v @ arrivals digit_parse [Frame 0 ''2''] ?v'\<rparr>]"
    by blast
  have q: "buffer ?v' = [1]"
    "calls (snd (dispatch digit_parse (Tick 0 Returns) (run digit_parse [Frame 0 ''2''] ?v'))) =
     [\<lparr>consumer = 7, array = 0, contents = [1]\<rparr>, \<lparr>consumer = 7, array = 0, contents = [1, 2]\<rparr>]"
    using r[unfolded a b c cv]
    by (simp_all only: append_Cons append_Nil interval_timer.select_convs)
  from p have ar: "arrivals digit_parse ?evs init = [1, 2]" by (simp add: d)
  show ?thesis using d ar g1 b g4 q by blast
qed

text \<open>
  The claim C2 as stated fails at a tick whose \<^verbatim>\<open>onBatchMessage\<close> call throws: one
  message is received, and the next tick hands the same array with the same message to
  the consumer a second time.
\<close>

theorem partition_counterexample:
  "delivered (run digit_parse (session @ [Frame 0 ''1'', Tick 0 Throws, Tick 0 Returns]) init) = [1, 1] \<and>
   arrivals digit_parse (session @ [Frame 0 ''1'', Tick 0 Throws, Tick 0 Returns]) init = [1] \<and>
   map array (calls (run digit_parse (session @ [Frame 0 ''1'', Tick 0 Throws, Tick 0 Returns]) init)) = [0, 0]"
proof -
  have "arrivals digit_parse (session @ [Frame 0 ''1'', Tick 0 Throws, Tick 0 Returns]) init = [1]"
    by (simp add: session_def run_defs decoded_def)
  then show ?thesis by (simp add: redelivered delivered_def)
qed

text \<open>
  C3: when \<^verbatim>\<open>onBatchMessage\<close> throws during the flush of a tick, the exception leaves
  the callback and the timer stays live; socket events leave it live too, and the next
  tick of that timer calls \<^verbatim>\<open>onBatchMessage\<close> with an array that holds the messages
  buffered since the failed tick (after those of the failed batch, which are still in
  the Buffer).
\<close>

theorem throwing_consumer_keeps_timer:
  assumes "w = run parse evs init"
    and "find (\<lambda>x. handle x = t) (timers w) = Some x"
    and "buffer w \<noteq> []"
    and "w' = snd (dispatch parse (Tick t Throws) w)"
    and "\<forall>e \<in> set fs. socket_event e"
  shows "fst (dispatch parse (Tick t Throws) w) = Some ConsumerError \<and>
         timers w' = timers w \<and> timers (run parse fs w') = timers w \<and>
         calls (run parse (fs @ [Tick t out]) w') =
           calls w' @ [\<lparr>consumer = onBatchMessage x, array = batchRef w,
                        contents = buffer w @ arrivals parse fs w'\<rparr>]"
proof -
  have wf: "wf w" unfolding assms(1) by (rule wf_reachable)
  have th: "dispatch parse (Tick t Throws) w =
    (Some ConsumerError,
     w\<lparr>calls := calls w @
           [\<lparr>consumer = onBatchMessage x, array = batchRef w, contents = buffer w\<rparr>]\<rparr>)"
    by (rule tick_throws[OF wf assms(2,3)])
  have w': "w' = w\<lparr>calls := calls w @
           [\<lparr>consumer = onBatchMessage x, array = batchRef w, contents = buffer w\<rparr>]\<rparr>"
    unfolding assms(4) th by simp
  have wf': "wf w'" unfolding assms(4) by (rule wf_dispatch[OF wf])
  have t': "timers w' = timers w" and br': "batchRef w' = batchRef w"
    and b': "buffer w' = buffer w"
    by (simp_all add: w' buffer_def)
  let ?w1 = "run parse fs w'"
  have wf1: "wf ?w1" by (rule wf_run[OF wf'])
  from socket_events_run[OF assms(5), of parse w']
  have c1: "calls ?w1 = calls w'" and br1: "batchRef ?w1 = batchRef w"
    and t1: "timers ?w1 = timers w"
    by (simp_all add: t' br')
  have b1: "buffer ?w1 = buffer w @ arrivals parse fs w'"
    using socket_events_buffer[OF wf' assms(5), of parse] by (simp add: b')
  have live1: "find (\<lambda>x. handle x = t) (timers ?w1) = Some x" by (simp add: t1 assms(2))
  have ne1: "buffer ?w1 \<noteq> []" using assms(3) by (simp add: b1)
  have "calls (snd (dispatch parse (Tick t out) ?w1)) =
        calls ?w1 @ [\<lparr>consumer = onBatchMessage x, array = batchRef ?w1, contents = buffer ?w1\<rparr>]"
    by (cases out) (simp_all only: tick_returns[OF wf1 live1 ne1] tick_throws[OF wf1 live1 ne1], simp_all)
  then have "calls (run parse (fs @ [Tick t out]) w') =
           calls w' @ [\<lparr>consumer = onBatchMessage x, array = batchRef w,
                        contents = buffer w @ arrivals parse fs w'\<rparr>]"
    by (simp add: run_append c1 br1 b1)
  then show ?thesis using th t' t1 by simp
qed

theorem throwing_consumer_keeps_timer_witness:
  "find (\<lambda>x. handle x = 0) (timers (run digit_parse (session @ [Frame 0 ''1'']) init)) =
     Some \<lparr>handle = 0, period = 100, onBatchMessage = 7\<rparr> \<and>
   buffer (run digit_parse (session @ [Frame 0 ''1'']) init) = [1] \<and>
   fst (dispatch digit_parse (Tick 0 Throws) (run digit_parse (session @ [Frame 0 ''1'']) init)) =
     Some ConsumerError \<and>
   timers (snd (dispatch digit_parse (Tick 0 Throws) (run digit_parse (session @ [Frame 0 ''1'']) init))) =
     [\<lparr>handle = 0, period = 100, onBatchMessage = 7\<rparr>] \<and>
   calls (run digit_parse ([Frame 0 ''2''] @ [Tick 0 Returns])
            (snd (dispatch digit_parse (Tick 0 Throws) (run digit_parse (session @ [Frame 0 ''1'']) init)))) =
     [\<lparr>consumer = 7, array = 0, contents = [1]\<rparr>, \<lparr>consumer = 7, array = 0, contents = [1, 2]\<rparr>]"
proof -
  let ?w = "run digit_parse (session @ [Frame 0 ''1'']) init"
  let ?w' = "snd (dispatch digit_parse (Tick 0 Throws) ?w)"
  have h1: "find (\<lambda>x. handle x = 0) (timers ?w) = Some \<lparr>handle = 0, period = 100, onBatchMessage = 7\<rparr>"
    by (simp only: one_buffered live_timer)
  have b: "buffer ?w = [1]" by (simp add: one_buffered buffer_def live_def)
  then have h2: "buffer ?w \<noteq> []" by simp
  have h3: "\<forall>e \<in> set [Frame 0 ''2'']. socket_event e" by simp
  have a: "arrivals digit_parse [Frame 0 ''2''] ?w' = [2]"
    by (simp only: one_buffered) (simp add: live_def run_defs decoded_def)
  have c: "calls ?w' = [\<lparr>consumer = 7, array = 0, contents = [1]\<rparr>]" "batchRef ?w = 0"
    "timers ?w = [\<lparr>handle = 0, period = 100, onBatchMessage = 7\<rparr>]"
    by (simp only: one_buffered, simp add: live_def run_defs)+
  from throwing_consumer_keeps_timer[OF refl h1 h2 refl h3, of Returns]
  show ?thesis using h1 b by (simp only: a c b) simp
qed

text \<open>
  C6: under a consumer that returns, a flush interval runs from the creation of the
  component or from a tick of a live timer to the next tick of the timer then live,
  whatever renders and socket events come in between. The Buffer is empty where the
  interval starts; the messages received within it are handed over by the tick that
  ends it as one batch, in arrival order, and the Buffer is empty afterwards (when none
  was received there is no call). The batches handed over, one after the other, are the
  received messages in arrival order, so no message of a later batch arrived before a
  message of an earlier one.
\<close>

theorem interval_batch_in_order:
  assumes "\<forall>e \<in> set evs. returns e"
    and "evs = [] \<or>
         (evs = es @ [Tick t0 Returns] \<and>
          find (\<lambda>x. handle x = t0) (timers (run parse es init)) \<noteq> None)"
    and "w = run parse evs init"
    and "\<forall>e \<in> set fs. \<not> tick e"
    and "w1 = run parse fs w"
    and "find (\<lambda>x. handle x = t) (timers w1) = Some x"
    and "ms = arrivals parse fs w"
    and "w' = snd (dispatch parse (Tick t Returns) w1)"
  shows "buffer w = [] \<and>
         calls w' = calls w @
           (if ms = [] then []
            else [\<lparr>consumer = onBatchMessage x, array = batchRef w1, contents = ms\<rparr>]) \<and>
         buffer w' = [] \<and>
         delivered w = arrivals parse evs init \<and>
         delivered w' = arrivals parse evs init @ ms"
proof -
  have wf: "wf w" unfolding assms(3) by (rule wf_reachable)
  have e: "buffer w = []"
  proof (cases "evs = []")
    case True
    then show ?thesis by (simp add: assms(3) buffer_def init_def)
  next
    case False
    with assms(2) have ev: "evs = es @ [Tick t0 Returns]"
      and l0: "find (\<lambda>x. handle x = t0) (timers (run parse es init)) \<noteq> None"
      by simp_all
    have "w = snd (dispatch parse (Tick t0 Returns) (run parse es init))"
      by (simp add: assms(3) ev run_append)
    then show ?thesis by (simp only: after_flush_empty[OF wf_reachable l0])
  qed
  have "delivered (run parse evs init) @ buffer (run parse evs init) =
        delivered init @ buffer init @ arrivals parse evs init"
    by (rule partition_run[OF wf_init assms(1)])
  then have d: "delivered w = arrivals parse evs init"
    using e by (simp add: assms(3) delivered_def buffer_def init_def)
  have wf1: "wf w1" unfolding assms(5) by (rule wf_run[OF wf])
  from quiet_run[OF wf assms(4), of parse]
  have c1: "calls w1 = calls w" and b1: "buffer w1 = ms"
    by (simp_all add: assms(5,7) e)
  show ?thesis
  proof (cases "ms = []")
    case True
    then have "w' = w1" unfolding assms(8) using tick_empty[OF wf1, of parse t Returns] b1 by simp
    then show ?thesis using True c1 b1 d e by (simp add: delivered_def)
  next
    case False
    then have ne1: "buffer w1 \<noteq> []" by (simp add: b1)
    have eq: "w' = w1\<lparr>calls := calls w1 @
                 [\<lparr>consumer = onBatchMessage x, array = batchRef w1, contents = buffer w1\<rparr>],
             arrays := arrays w1 @ [ [] ], batchRef := length (arrays w1)\<rparr>"
      unfolding assms(8) by (simp only: tick_returns[OF wf1 assms(6) ne1] snd_conv)
    have "calls w' = calls w1 @
                 [\<lparr>consumer = onBatchMessage x, array = batchRef w1, contents = buffer w1\<rparr>]"
      by (subst eq) simp
    then have "calls w' = calls w @ [\<lparr>consumer = onBatchMessage x, array = batchRef w1, contents = ms\<rparr>]"
      by (simp only: c1 b1)
    moreover have "buffer w' = []"
      by (subst eq) (simp add: buffer_def)
    ultimately show ?thesis using False d e by (simp add: delivered_def)
  qed
qed

theorem interval_batch_in_order_witness:
  "find (\<lambda>x. handle x = 0) (timers (run digit_parse (session @ [Frame 0 ''1'']) init)) \<noteq> None \<and>
   find (\<lambda>x. handle x = 1)
     (timers (run digit_parse
        [Frame 0 ''2'', Render ''wss://quotes.example.com'' 7 (Some 250), Opened 1, Frame 1 ''3'']
        (run digit_parse ((session @ [Frame 0 ''1'']) @ [Tick 0 Returns]) init))) =
     Some \<lparr>handle = 1, period = 250, onBatchMessage = 7\<rparr> \<and>
   buffer (run digit_parse ((session @ [Frame 0 ''1'']) @ [Tick 0 Returns]) init) = [] \<and>
   arrivals digit_parse
     [Frame 0 ''2'', Render ''wss://quotes.example.com'' 7 (Some 250), Opened 1, Frame 1 ''3'']
     (run digit_parse ((session @ [Frame 0 ''1'']) @ [Tick 0 Returns]) init) = [2, 3] \<and>
   calls (snd (dispatch digit_parse (Tick 1 Returns)
     (run digit_parse
        [Frame 0 ''2'', Render ''wss://quotes.example.com'' 7 (Some 250), Opened 1, Frame 1 ''3'']
        (run digit_parse ((session @ [Frame 0 ''1'']) @ [Tick 0 Returns]) init)))) =
     [\<lparr>consumer = 7, array = 0, contents = [1]\<rparr>, \<lparr>consumer = 7, array = 1, contents = [2, 3]\<rparr>]"
proof -
  let ?es = "session @ [Frame 0 ''1'']"
  let ?evs = "?es @ [Tick 0 Returns]"
  let ?fs = "[Frame 0 ''2'', Render ''wss://quotes.example.com'' 7 (Some 250), Opened 1, Frame 1 ''3'']"
  let ?w = "run digit_parse ?evs init"
  let ?w1 = "run digit_parse ?fs ?w"
  have w: "?w = live\<lparr>arrays := [ [1], [] ], batchRef := 1,
          calls := [\<lparr>consumer = 7, array = 0, contents = [1]\<rparr>]\<rparr>"
    by (simp only: run_append session_live) (simp add: live_def run_defs)
  have h1: "\<forall>e \<in> set ?evs. returns e" using session_returns by simp
  have l0: "find (\<lambda>x. handle x = 0) (timers (run digit_parse ?es init)) \<noteq> None"
    by (simp only: one_buffered live_timer) simp
  have h2: "?evs = [] \<or> (?evs = ?es @ [Tick 0 Returns] \<and>
      find (\<lambda>x. handle x = 0) (timers (run digit_parse ?es init)) \<noteq> None)"
    using l0 by simp
  have h4: "\<forall>e \<in> set ?fs. \<not> tick e" by simp
  have h6: "find (\<lambda>x. handle x = 1) (timers ?w1) = Some \<lparr>handle = 1, period = 250, onBatchMessage = 7\<rparr>"
    by (simp only: w rendered_interval) (simp add: live_def)
  have a: "arrivals digit_parse ?fs ?w = [2, 3]"
    by (simp only: w) (simp add: live_def run_defs decoded_def)
  have c: "calls ?w = [\<lparr>consumer = 7, array = 0, contents = [1]\<rparr>]" "batchRef ?w1 = 1"
    by (simp only: w rendered_interval, simp add: live_def)+
  note t = interval_batch_in_order[OF h1 h2 refl h4 refl h6 refl refl, unfolded a c]
  from t have "buffer ?w = []"
    and "calls (snd (dispatch digit_parse (Tick 1 Returns) ?w1)) =
      [\<lparr>consumer = 7, array = 0, contents = [1]\<rparr>, \<lparr>consumer = 7, array = 1, contents = [2, 3]\<rparr>]"
    by simp_all
  then show ?thesis using l0 h6 a by blast
qed


text \<open>
  C4, as the code has it: when the payload of a frame does not decode,
  \<^verbatim>\<open>JSON.parse\<close> throws and the SyntaxError leaves the \<^verbatim>\<open>onmessage\<close> handler
  uncaught (on an open socket; other sockets get no message event at all). The state is
  unchanged: no message is produced, nothing is written to the console, the socket
  stays as it was. A run with the malformed frame in it reaches the same state and has
  the same received messages as the run without it, so the frame is in no batch and
  every later frame is decoded and handed to \<^verbatim>\<open>onMessage\<close> as before.
\<close>

theorem malformed_frame_dropped:
  assumes "parse d = None"
  shows "dispatch parse (Frame h d) w =
           (if h < length (sockets w) \<and> readyState (sockets w ! h) = OPEN
            then Some SyntaxError else None, w) \<and>
         run parse (es @ Frame h d # fs) w0 = run parse (es @ fs) w0 \<and>
         arrivals parse (es @ Frame h d # fs) w0 = arrivals parse (es @ fs) w0"
proof -
  have s: "snd (dispatch parse (Frame h d) v) = v" for v :: "'a coalescer"
    by (simp only: malformed_step[of parse d, OF assms] snd_conv)
  have "run parse (Frame h d # fs) v = run parse fs v" for v :: "'a coalescer"
    using s[of v] by simp
  then have r: "run parse (es @ Frame h d # fs) w0 = run parse (es @ fs) w0"
    by (simp only: run_append)
  have "decoded parse h d v = []" for v :: "'a coalescer"
    using assms by (simp add: decoded_def)
  then have "arrivals parse (Frame h d # fs) v = arrivals parse fs v" for v :: "'a coalescer"
    using s[of v] by simp
  then have a: "arrivals parse (es @ Frame h d # fs) w0 = arrivals parse (es @ fs) w0"
    by (simp only: arrivals_append)
  show ?thesis using malformed_step[of parse d h w, OF assms] r a by simp
qed

theorem malformed_frame_dropped_witness:
  "digit_parse ''{'' = None \<and>
   calls (run digit_parse ((session @ [Frame 0 ''1'']) @ Frame 0 ''{'' # [Frame 0 ''2'', Tick 0 Returns]) init) =
     [\<lparr>consumer = 7, array = 0, contents = [1, 2]\<rparr>] \<and>
   map readyState (sockets (run digit_parse
      ((session @ [Frame 0 ''1'']) @ Frame 0 ''{'' # [Frame 0 ''2'', Tick 0 Returns]) init)) = [OPEN]"
proof -
  have h: "digit_parse ''{'' = None" by (simp add: digit_parse_def)
  from malformed_frame_dropped[of digit_parse "''{''" 0 init "session @ [Frame 0 ''1'']"
      "[Frame 0 ''2'', Tick 0 Returns]" init, OF h]
  have "run digit_parse ((session @ [Frame 0 ''1'']) @ Frame 0 ''{'' # [Frame 0 ''2'', Tick 0 Returns]) init =
        run digit_parse (session @ [Frame 0 ''1''] @ [Frame 0 ''2'', Tick 0 Returns]) init"
    by simp
  then show ?thesis using h by (simp only: scenario_C) (simp add: live_def)
qed

text \<open>
  The claim C4 as stated fails where it says the malformed frame is logged: the handler
  ends with an uncaught SyntaxError, and the console holds what it held before.
\<close>

theorem malformed_not_logged_counterexample:
  "dispatch digit_parse (Frame 0 ''{'') (run digit_parse session init) =
     (Some SyntaxError, run digit_parse session init) \<and>
   console (snd (dispatch digit_parse (Frame 0 ''{'') (run digit_parse session init))) =
     [''Websocket connected!'']"
  by (simp only: session_live) (simp add: live_def run_defs)



text \<open>
  C8: for a component that calls \<^verbatim>\<open>useWebSocket\<close>, a render with the committed
  address and the committed \<^verbatim>\<open>onMessage\<close> reference changes nothing and returns the
  current socket; a render with another address or another reference calls
  \<^verbatim>\<open>close()\<close> on the current socket and constructs a new one for the new address and
  reference, which becomes the current socket.
\<close>

theorem reactivation_key:
  assumes "activated s"
    and "ws_deps s = Some (u0, cb0)"
    and "socketRef s = Some h"
    and "s' = snd (useWebSocket u cb s)"
  shows "useWebSocket u0 cb0 s = (Some h, s) \<and>
         (u \<noteq> u0 \<or> cb \<noteq> cb0 \<longrightarrow>
            sockets s' = (sockets s)[h := close (sockets s ! h)] @
                         [\<lparr>url = u, readyState = CONNECTING, onMessage = cb\<rparr>] \<and>
            closing (sockets s' ! h) \<and> h < length (sockets s) \<and>
            socketRef s' = Some (length (sockets s)) \<and> ws_deps s' = Some (u, cb))"
proof -
  from activated_ok[OF assms(1)] assms(3) have hl: "h < length (sockets s)"
    by (simp add: sockets_ok_def)
  have same: "useWebSocket u0 cb0 s = (Some h, s)"
    using assms(2,3) by (simp add: useWebSocket_def ws_commit_def)
  have "sockets s' = (sockets s)[h := close (sockets s ! h)] @
                         [\<lparr>url = u, readyState = CONNECTING, onMessage = cb\<rparr>] \<and>
        closing (sockets s' ! h) \<and> h < length (sockets s) \<and>
        socketRef s' = Some (length (sockets s)) \<and> ws_deps s' = Some (u, cb)"
    if "u \<noteq> u0 \<or> cb \<noteq> cb0"
  proof -
    from that have "ws_deps s \<noteq> Some (u, cb)" using assms(2) by auto
    then have e: "s' = ws_effect u cb (ws_cleanup s)"
      using assms(2) by (simp add: assms(4) useWebSocket_def ws_commit_def)
    have "sockets s' = (sockets s)[h := close (sockets s ! h)] @
                         [\<lparr>url = u, readyState = CONNECTING, onMessage = cb\<rparr>]"
      using assms(3) by (simp add: e ws_effect_def ws_cleanup_def)
    moreover from this have "closing (sockets s' ! h)"
      using hl by (simp add: nth_append closing_close)
    moreover have "socketRef s' = Some (length (sockets s))" "ws_deps s' = Some (u, cb)"
      using assms(3) by (simp_all add: e ws_effect_def ws_cleanup_def)
    ultimately show ?thesis using hl by simp
  qed
  then show ?thesis using same by blast
qed

theorem reactivation_key_witness:
  "activated (snd (useWebSocket ''wss://a'' (1::nat) adapter_init)) \<and>
   ws_deps (snd (useWebSocket ''wss://a'' (1::nat) adapter_init)) = Some (''wss://a'', 1) \<and>
   socketRef (snd (useWebSocket ''wss://a'' (1::nat) adapter_init)) = Some 0 \<and>
   useWebSocket ''wss://a'' 1 (snd (useWebSocket ''wss://a'' (1::nat) adapter_init)) =
     (Some 0, snd (useWebSocket ''wss://a'' (1::nat) adapter_init)) \<and>
   sockets (snd (useWebSocket ''wss://a'' 2 (snd (useWebSocket ''wss://a'' (1::nat) adapter_init)))) =
     [\<lparr>url = ''wss://a'', readyState = CLOSING, onMessage = 1\<rparr>,
      \<lparr>url = ''wss://a'', readyState = CONNECTING, onMessage = 2\<rparr>] \<and>
   socketRef (snd (useWebSocket ''wss://a'' 2 (snd (useWebSocket ''wss://a'' (1::nat) adapter_init)))) =
     Some 1"
proof -
  let ?s = "snd (useWebSocket ''wss://a'' (1::nat) adapter_init)"
  have h1: "activated ?s" by (intro activated.intros)
  have h2: "ws_deps ?s = Some (''wss://a'', 1)"
    by (simp add: useWebSocket_def ws_commit_def ws_effect_def adapter_init_def)
  have h3: "socketRef ?s = Some 0"
    by (simp add: useWebSocket_def ws_commit_def ws_effect_def adapter_init_def)
  have v: "sockets ?s = [\<lparr>url = ''wss://a'', readyState = CONNECTING, onMessage = 1\<rparr>]"
    by (simp add: useWebSocket_def ws_commit_def ws_effect_def adapter_init_def)
  note r = reactivation_key[OF h1 h2 h3 refl, of "''wss://a''" 2, unfolded v]
  from r show ?thesis using h1 h2 h3 by (simp add: close_def)
qed

text \<open>
  C9: a render of the mounted component, whatever address, \<^verbatim>\<open>onBatchMessage\<close>
  reference and interval it brings, leaves the arrays, the Buffer and the recorded calls
  as they were. Afterwards exactly one timer is live, with the new reference and
  interval, and its next tick hands the messages buffered before the render, followed
  by those received since on any socket, to the new reference as one batch.
\<close>

theorem reconfigure_keeps_buffer:
  assumes "w = run parse evs init"
    and "phase w = Mounted"
    and "w' = useBatchedMessages u ob iv w"
    and "\<forall>e \<in> set fs. socket_event e"
    and "buffer w @ arrivals parse fs w' \<noteq> []"
  shows "arrays w' = arrays w \<and> batchRef w' = batchRef w \<and> calls w' = calls w \<and>
         length (timers w') = 1 \<and> onBatchMessage (hd (timers w')) = ob \<and>
         period (hd (timers w')) = batchInterval iv \<and>
         calls (run parse (fs @ [Tick (handle (hd (timers w'))) out]) w') =
           calls w @ [\<lparr>consumer = ob, array = batchRef w,
                       contents = buffer w @ arrivals parse fs w'\<rparr>]"
proof -
  have wf: "wf w" unfolding assms(1) by (rule wf_reachable)
  have nf: "phase w \<noteq> Fresh" "phase w \<noteq> Unmounted" using assms(2) by simp_all
  have f: "arrays w' = arrays w" "batchRef w' = batchRef w" "calls w' = calls w"
    unfolding assms(3) using nf(1) by simp_all
  then have b: "buffer w' = buffer w" by (simp add: buffer_def)
  have wf': "wf w'" unfolding assms(3) by (rule wf_render[OF wf nf(2)])
  from wfD(6)[OF wf] assms(2) obtain p0 ob0 t0 where te: "timer_effect w = Some ((p0, ob0), t0)"
    by auto
  from wfD(1)[OF wf] te have tw: "timers w = [\<lparr>handle = t0, period = p0, onBatchMessage = ob0\<rparr>]"
    by (simp add: timers_ok_def)
  have "timers w' = (if batchInterval iv = p0 \<and> ob = ob0 then timers w
            else [\<lparr>handle = next_handle w, period = batchInterval iv, onBatchMessage = ob\<rparr>])"
    unfolding assms(3) by (rule rerender_timers(1)[OF wf te])
  then obtain t' where t': "timers w' = [\<lparr>handle = t', period = batchInterval iv, onBatchMessage = ob\<rparr>]"
    using tw by (cases "batchInterval iv = p0 \<and> ob = ob0") auto
  have live: "find (\<lambda>x. handle x = t') (timers w') =
      Some \<lparr>handle = t', period = batchInterval iv, onBatchMessage = ob\<rparr>"
    by (simp add: t')
  have ne: "buffer w' @ arrivals parse fs w' \<noteq> []" using assms(5) by (simp add: b)
  have "calls (run parse (fs @ [Tick t' out]) w') =
           calls w' @ [\<lparr>consumer = ob, array = batchRef w',
                       contents = buffer w' @ arrivals parse fs w'\<rparr>]"
    using next_tick[OF wf' live assms(4) ne, of out] by simp
  then show ?thesis using f by (simp add: t' b)
qed

theorem reconfigure_keeps_buffer_witness:
  "phase (run digit_parse (session @ [Frame 0 ''1'']) init) = Mounted \<and>
   buffer (run digit_parse (session @ [Frame 0 ''1'']) init) = [1] \<and>
   arrivals digit_parse [Opened 1, Frame 1 ''2'']
     (useBatchedMessages ''wss://quotes.example.com'' 8 (Some 250)
        (run digit_parse (session @ [Frame 0 ''1'']) init)) = [2] \<and>
   handle (hd (timers (useBatchedMessages ''wss://quotes.example.com'' 8 (Some 250)
        (run digit_parse (session @ [Frame 0 ''1'']) init)))) = 1 \<and>
   calls (run digit_parse ([Opened 1, Frame 1 ''2''] @ [Tick 1 Returns])
     (useBatchedMessages ''wss://quotes.example.com'' 8 (Some 250)
        (run digit_parse (session @ [Frame 0 ''1'']) init))) =
     [\<lparr>consumer = 8, array = 0, contents = [1, 2]\<rparr>]"
proof -
  let ?w = "run digit_parse (session @ [Frame 0 ''1'']) init"
  let ?w' = "useBatchedMessages ''wss://quotes.example.com'' 8 (Some 250) ?w"
  have h1: "phase ?w = Mounted" by (simp add: one_buffered live_def)
  have b: "buffer ?w = [1]" by (simp add: one_buffered buffer_def live_def)
  have h3: "\<forall>e \<in> set [Opened 1, Frame 1 ''2'']. socket_event e" by simp
  have a: "arrivals digit_parse [Opened 1, Frame 1 ''2''] ?w' = [2]"
    by (simp only: one_buffered reconfigured) (simp add: live_def run_defs decoded_def)
  have h4: "buffer ?w @ arrivals digit_parse [Opened 1, Frame 1 ''2''] ?w' \<noteq> []"
    by (simp only: a b) simp
  have t: "handle (hd (timers ?w')) = 1" by (simp only: one_buffered reconfigured) simp
  have c: "calls ?w = []" "batchRef ?w = 0" by (simp_all add: one_buffered live_def)
  note r = reconfigure_keeps_buffer[OF refl h1 refl h3 h4, of Returns, unfolded a b t c]
  from r show ?thesis using h1 b a t by simp
qed

text \<open>
  C10: \<^verbatim>\<open>useWebSocket\<close> returns \<^verbatim>\<open>null\<close> on the first render. On every render it
  returns \<^verbatim>\<open>socketRef.current\<close> as it was before the effects of that render ran;
  when the render's effect constructs a socket, the value returned is not that socket.
\<close>

theorem first_render_returns_null:
  assumes "activated s"
    and "s' = snd (useWebSocket u cb s)"
  shows "fst (useWebSocket u cb adapter_init) = None \<and>
         fst (useWebSocket u cb s) = socketRef s \<and>
         (ws_deps s \<noteq> Some (u, cb) \<longrightarrow>
            socketRef s' = Some (length (sockets s)) \<and>
            length (sockets s') = Suc (length (sockets s)) \<and>
            fst (useWebSocket u cb s) \<noteq> socketRef s')"
proof -
  have ok: "sockets_ok s" by (rule activated_ok[OF assms(1)])
  have "socketRef s' = Some (length (sockets s)) \<and>
        length (sockets s') = Suc (length (sockets s)) \<and>
        fst (useWebSocket u cb s) \<noteq> socketRef s'"
    if "ws_deps s \<noteq> Some (u, cb)"
  proof -
    have e: "s' = ws_effect u cb (if ws_deps s = None then s else ws_cleanup s)"
      using that by (simp add: assms(2) useWebSocket_def ws_commit_def)
    have l: "length (sockets (if ws_deps s = None then s else ws_cleanup s)) = length (sockets s)"
      by (simp add: ws_cleanup_def split: option.splits)
    have r: "socketRef s' = Some (length (sockets s))" "length (sockets s') = Suc (length (sockets s))"
      using l by (simp_all add: e ws_effect_def)
    have "socketRef s \<noteq> Some (length (sockets s))" using ok by (auto simp: sockets_ok_def)
    then show ?thesis using r by (simp add: useWebSocket_def)
  qed
  moreover have "fst (useWebSocket u cb adapter_init) = None"
    by (simp add: useWebSocket_def adapter_init_def)
  moreover have "fst (useWebSocket u cb s) = socketRef s"
    by (simp add: useWebSocket_def)
  ultimately show ?thesis by blast
qed

theorem first_render_returns_null_witness:
  "activated (adapter_init :: nat adapter) \<and>
   fst (useWebSocket ''wss://a'' (1::nat) adapter_init) = None \<and>
   socketRef (snd (useWebSocket ''wss://a'' (1::nat) adapter_init)) = Some 0 \<and>
   fst (useWebSocket ''wss://a'' (1::nat) adapter_init) \<noteq>
     socketRef (snd (useWebSocket ''wss://a'' (1::nat) adapter_init))"
proof -
  have h1: "activated (adapter_init :: nat adapter)" by (rule activated.start)
  have d: "ws_deps (adapter_init :: nat adapter) \<noteq> Some (''wss://a'', 1)"
    by (simp add: adapter_init_def)
  have l: "length (sockets (adapter_init :: nat adapter)) = 0" by (simp add: adapter_init_def)
  from first_render_returns_null[OF h1 refl, of "''wss://a''" 1] d
  have "fst (useWebSocket ''wss://a'' (1::nat) adapter_init) = None \<and>
        socketRef (snd (useWebSocket ''wss://a'' (1::nat) adapter_init)) =
          Some (length (sockets (adapter_init :: nat adapter))) \<and>
        fst (useWebSocket ''wss://a'' (1::nat) adapter_init) \<noteq>
          socketRef (snd (useWebSocket ''wss://a'' (1::nat) adapter_init))"
    by blast
  then show ?thesis using h1 by (simp only: l) simp
qed

end
